theory Spec2Isabelle
  imports Complex_Main "HOL-Library.Char_ord" "HOL-Library.List_Lexorder"
    "HOL-Library.Product_Lexorder"
begin

section \<open>Shared JavaScript library behaviour\<close>

text \<open>
  \<open>Array.prototype.sort(cmp)\<close> is a stable sort: an element \<open>a\<close> is placed before \<open>b\<close>
  when \<open>cmp(a, b) < 0\<close>, and elements that compare equal keep their relative order.
  It is modelled as a stable insertion sort driven by the comparator's sign.
\<close>

fun insert_by :: "('a \<Rightarrow> 'a \<Rightarrow> 'b::linordered_idom) \<Rightarrow> 'a \<Rightarrow> 'a list \<Rightarrow> 'a list" where
  "insert_by cmp x [] = [x]"
| "insert_by cmp x (y # ys) = (if cmp x y \<le> 0 then x # y # ys else y # insert_by cmp x ys)"

definition sort_by :: "('a \<Rightarrow> 'a \<Rightarrow> 'b::linordered_idom) \<Rightarrow> 'a list \<Rightarrow> 'a list" where
  "sort_by cmp xs = foldr (insert_by cmp) xs []"

text \<open>\<open>Math.round\<close> rounds to the nearest integer, halves towards plus infinity.\<close>

definition Math_round :: "real \<Rightarrow> real" where
  "Math_round x = of_int \<lfloor>x + 1 / 2\<rfloor>"

section \<open>JavaScript numbers\<close>

text \<open>
  A JavaScript number is an IEEE 754 double: \<open>NaN\<close>, an infinity, or a finite value, which
  is a real number. \<open><\<close> and \<open><=\<close> are the comparisons of the language: both are false
  when an operand is \<open>NaN\<close>, so \<open>a >= b\<close>, written \<open>b \<le> a\<close>, is not the negation of
  \<open>a < b\<close>.
\<close>

datatype number = NaN | NegInfinity | Finite real | PosInfinity

fun number_less :: "number \<Rightarrow> number \<Rightarrow> bool" where
  "number_less (Finite a) (Finite b) = (a < b)"
| "number_less NegInfinity (Finite b) = True"
| "number_less NegInfinity PosInfinity = True"
| "number_less (Finite a) PosInfinity = True"
| "number_less _ _ = False"

instantiation number :: ord
begin

definition less_number :: "number \<Rightarrow> number \<Rightarrow> bool" where
  "less_number a b = number_less a b"

definition less_eq_number :: "number \<Rightarrow> number \<Rightarrow> bool" where
  "less_eq_number a b = (a \<noteq> NaN \<and> b \<noteq> NaN \<and> \<not> number_less b a)"

instance ..

end

text \<open>
  Rounding a real number to the nearest double, ties to even: the binade of a positive
  \<open>x\<close> is found by a search bounded by the exponent range, the unit in the last place is
  \<open>2\<close> to the power \<open>e - 52\<close> (\<open>2\<close> to the power \<open>-1074\<close> for subnormal values), and a
  result of \<open>2\<close> to the power \<open>1024\<close> or more is an infinity.
\<close>

fun exponent_down :: "nat \<Rightarrow> real \<Rightarrow> int \<Rightarrow> int" where
  "exponent_down 0 x e = e"
| "exponent_down (Suc n) x e = (if 2 powi e \<le> x then e else exponent_down n x (e - 1))"

fun exponent_up :: "nat \<Rightarrow> real \<Rightarrow> int \<Rightarrow> int" where
  "exponent_up 0 x e = e"
| "exponent_up (Suc n) x e = (if x < 2 powi (e + 1) then e else exponent_up n x (e + 1))"

definition binade :: "real \<Rightarrow> int" where
  "binade x = (if x < 1 then exponent_down 1022 x 0 else exponent_up 1024 x 0)"

definition round_half_even :: "real \<Rightarrow> int" where
  "round_half_even y =
     (let f = \<lfloor>y\<rfloor>; r = y - of_int f
      in if r < 1 / 2 then f else if 1 / 2 < r then f + 1 else if even f then f else f + 1)"

definition round_positive :: "real \<Rightarrow> number" where
  "round_positive x =
     (let ulp = 2 powi (binade x - 52); v = of_int (round_half_even (x / ulp)) * ulp
      in if 2 powi 1024 \<le> v then PosInfinity else Finite v)"

fun negate :: "number \<Rightarrow> number" where
  "negate NaN = NaN"
| "negate NegInfinity = PosInfinity"
| "negate (Finite r) = Finite (- r)"
| "negate PosInfinity = NegInfinity"

definition to_double :: "real \<Rightarrow> number" where
  "to_double x =
     (if x = 0 then Finite 0
      else if 0 < x then round_positive x
      else negate (round_positive (- x)))"

text \<open>Subtraction of doubles: the exact difference, rounded.\<close>

fun number_minus :: "number \<Rightarrow> number \<Rightarrow> number" where
  "number_minus (Finite a) (Finite b) = to_double (a - b)"
| "number_minus NaN _ = NaN"
| "number_minus _ NaN = NaN"
| "number_minus PosInfinity PosInfinity = NaN"
| "number_minus NegInfinity NegInfinity = NaN"
| "number_minus PosInfinity _ = PosInfinity"
| "number_minus NegInfinity _ = NegInfinity"
| "number_minus (Finite a) PosInfinity = NegInfinity"
| "number_minus (Finite a) NegInfinity = PosInfinity"

text \<open>
  \<open>Array.prototype.sort\<close> reads only the sign of what the comparator returns, and takes
  \<open>NaN\<close> for \<open>+0\<close>.
\<close>

fun sign_of :: "number \<Rightarrow> int" where
  "sign_of NaN = 0"
| "sign_of NegInfinity = - 1"
| "sign_of (Finite r) = (if r < 0 then - 1 else if 0 < r then 1 else 0)"
| "sign_of PosInfinity = 1"

text \<open>
  Every finite double is a whole multiple of \<open>2\<close> to the power \<open>-1074\<close>;
  \<open>on_double_grid\<close> says so of a number.
\<close>

definition double_grid :: "real \<Rightarrow> bool" where
  "double_grid r \<longleftrightarrow> of_int \<lfloor>r * 2 ^ 1074\<rfloor> = r * 2 ^ 1074"

fun on_double_grid :: "number \<Rightarrow> bool" where
  "on_double_grid (Finite r) = double_grid r"
| "on_double_grid _ = True"

text \<open>
  The place of a number other than \<open>NaN\<close> in the linear order of the extended reals, as
  a pair ordered lexicographically.
\<close>

fun number_rank :: "number \<Rightarrow> int \<times> real" where
  "number_rank NegInfinity = (- 1, 0)"
| "number_rank (Finite r) = (0, r)"
| "number_rank PosInfinity = (1, 0)"
| "number_rank NaN = (2, 0)"

text \<open>A number formatting used where a concrete one is needed: it prints nothing.\<close>

definition str0 :: "number \<Rightarrow> string" where
  "str0 x = []"

section \<open>AURA: types (lib/aura/index.ts)\<close>

text \<open>
  Metric values and thresholds are JavaScript numbers, \<open>NaN\<close> and the infinities included.
  A decimal literal of the source denotes the double nearest to it: \<open>0.85\<close> is
  \<open>to_double (85 / 100)\<close>.
\<close>

datatype MetricKind = Metric_TES | Metric_VTR | Metric_PAI

datatype Severity = Low | Medium | High

record AURAWarning =
  metric :: MetricKind
  message :: string
  suggestion :: string
  severity :: Severity

text \<open>
  \<open>AURAThresholds\<close> and the argument type \<open>{TES; VTR; PAI}\<close> of \<open>validateAURA\<close> are the
  same structural type; \<open>AURAMetrics\<close> extends it, as the spread \<open>...metrics\<close> does.
\<close>

record AURAThresholds =
  TES :: number
  VTR :: number
  PAI :: number

record AURAMetrics = AURAThresholds +
  valid :: bool
  warnings :: "AURAWarning list"
  timestamp :: int

record VectorInversion =
  originalIntent :: string
  failedMetric :: MetricKind
  failureReason :: string
  invertedSolution :: string
  newMetrics :: AURAMetrics

datatype AURAPreset = Conservative | Moderate | Permissive | Creative | Medical

fun AURA_PRESETS :: "AURAPreset \<Rightarrow> AURAThresholds" where
  "AURA_PRESETS Conservative =
     \<lparr>TES = to_double (85 / 100), VTR = to_double 2, PAI = to_double (90 / 100)\<rparr>"
| "AURA_PRESETS Moderate =
     \<lparr>TES = to_double (70 / 100), VTR = to_double (15 / 10), PAI = to_double (80 / 100)\<rparr>"
| "AURA_PRESETS Permissive =
     \<lparr>TES = to_double (60 / 100), VTR = to_double (12 / 10), PAI = to_double (70 / 100)\<rparr>"
| "AURA_PRESETS Creative =
     \<lparr>TES = to_double (65 / 100), VTR = to_double (18 / 10), PAI = to_double (75 / 100)\<rparr>"
| "AURA_PRESETS Medical =
     \<lparr>TES = to_double (85 / 100), VTR = to_double 2, PAI = to_double (90 / 100)\<rparr>"

section \<open>AURA: metric calculators\<close>

text \<open>
  The guards come first, as in the source. Past them the arithmetic is written over the
  real numbers, where the doubles of the source round.
\<close>

record TESParams =
  totalElements :: real
  essentialElements :: real
  clarityScore :: real
  anxietyInduced :: real

definition calculateTES :: "TESParams \<Rightarrow> real" where
  "calculateTES params =
     (if totalElements params = 0 then 1
      else
        let necessaryRatio = essentialElements params / totalElements params;
            frictionPenalty = anxietyInduced params * (3 / 10);
            clarityBonus = clarityScore params * (2 / 10);
            tes = max 0 (min 1 (necessaryRatio - frictionPenalty + clarityBonus))
        in Math_round (tes * 100) / 100)"

record VTRParams =
  valueOffered :: real
  valueCaptured :: real
  skillsTransferred :: real
  autonomyPreserved :: real

definition calculateVTR :: "VTRParams \<Rightarrow> real" where
  "calculateVTR params =
     (if valueCaptured params = 0 then 10
      else
        let baseRatio = valueOffered params / valueCaptured params;
            skillBonus = (skillsTransferred params / 10) * (5 / 10);
            autonomyBonus = autonomyPreserved params * (5 / 10);
            vtr = baseRatio + skillBonus + autonomyBonus
        in Math_round (vtr * 100) / 100)"

section \<open>AURA: validation\<close>

text \<open>
  The environment enters as parameters: \<open>str\<close> is the number-to-string conversion of the
  template literals, \<open>now\<close> the reading of \<open>Date.now()\<close>. The three checks run in the
  order of the source, each pushing at most one warning.
\<close>

definition validateAURA ::
  "(number \<Rightarrow> string) \<Rightarrow> int \<Rightarrow> 'a AURAThresholds_scheme \<Rightarrow> AURAThresholds \<Rightarrow> AURAMetrics" where
  "validateAURA str now metrics thresholds =
     (let w0 = [];
          w1 = (if TES metrics < TES thresholds
                then w0 @ [\<lparr>metric = Metric_TES,
                  message = ''Trust Entropy Score ('' @ str (TES metrics) @
                            '') below threshold ('' @ str (TES thresholds) @ '')'',
                  suggestion = ''Reduce unnecessary complexity. Focus on essential elements only.'',
                  severity = (if TES metrics < to_double (5 / 10) then High else Medium)\<rparr>]
                else w0);
          w2 = (if VTR metrics < VTR thresholds
                then w1 @ [\<lparr>metric = Metric_VTR,
                  message = ''Value-Transfer Ratio ('' @ str (VTR metrics) @
                            '') below threshold ('' @ str (VTR thresholds) @ '')'',
                  suggestion = ''Increase value offered. Teach skills rather than doing work.'',
                  severity = (if VTR metrics < to_double 1 then High else Medium)\<rparr>]
                else w1);
          w3 = (if PAI metrics < PAI thresholds
                then w2 @ [\<lparr>metric = Metric_PAI,
                  message = ''Purpose Alignment Index ('' @ str (PAI metrics) @
                            '') below threshold ('' @ str (PAI thresholds) @ '')'',
                  suggestion = ''Stay focused on stated purpose. Remove tangential elements.'',
                  severity = (if PAI metrics < to_double (6 / 10) then High else Medium)\<rparr>]
                else w2)
      in \<lparr>TES = TES metrics, VTR = VTR metrics, PAI = PAI metrics,
          valid = (length w3 = 0), warnings = w3, timestamp = now\<rparr>)"

text \<open>The metric a kind names, whether it is below its threshold, and by how much.\<close>

fun metric_of :: "MetricKind \<Rightarrow> 'a AURAThresholds_scheme \<Rightarrow> number" where
  "metric_of Metric_TES r = TES r"
| "metric_of Metric_VTR r = VTR r"
| "metric_of Metric_PAI r = PAI r"

definition below :: "'a AURAThresholds_scheme \<Rightarrow> AURAThresholds \<Rightarrow> MetricKind \<Rightarrow> bool" where
  "below m t k = (metric_of k m < metric_of k t)"

section \<open>AURA: vector inversion\<close>

text \<open>
  \<open>String.prototype.split(' ')\<close> cuts at every single space and keeps empty pieces, so the
  result always has one more element than the string has spaces.
  \<open>Array.prototype.join(' ')\<close> puts one space between consecutive elements.
\<close>

fun split_on :: "char \<Rightarrow> string \<Rightarrow> string list" where
  "split_on sep [] = [[]]"
| "split_on sep (c # cs) =
     (if c = sep then [] # split_on sep cs
      else (case split_on sep cs of [] \<Rightarrow> [[c]] | w # ws \<Rightarrow> (c # w) # ws))"

fun join_with :: "string \<Rightarrow> string list \<Rightarrow> string" where
  "join_with sep [] = []"
| "join_with sep [w] = w"
| "join_with sep (w # ws) = w @ sep @ join_with sep ws"

definition extractIntent :: "string \<Rightarrow> string" where
  "extractIntent request =
     (let words = take 10 (split_on CHR '' '' request)
      in join_with '' '' words @
         (if length (split_on CHR '' '' request) > 10 then ''...'' else []))"

text \<open>
  The simulated improvement is validated with the default thresholds of \<open>validateAURA\<close>,
  the moderate preset. The parameter \<open>failedMetric\<close> is written \<open>failed\<close>, and the locals
  \<open>failureReason\<close>, \<open>invertedSolution\<close>, \<open>newMetrics\<close> are \<open>reason\<close>, \<open>solution\<close>, \<open>improved\<close>,
  since the record fields own those names.
\<close>

definition vectorInversion ::
  "(number \<Rightarrow> string) \<Rightarrow> int \<Rightarrow> string \<Rightarrow> MetricKind \<Rightarrow> string \<Rightarrow> VectorInversion" where
  "vectorInversion str now failedRequest failed context =
     (let intent = extractIntent failedRequest;
          (reason, solution) =
            (case failed of
               Metric_TES \<Rightarrow>
                 (''Creates unnecessary complexity and friction'',
                  ''Simplified approach: Focus on the 3 most essential elements of '' @
                  [CHR 0x22] @ intent @ [CHR 0x22] @
                  ''. Remove all auxiliary considerations until core is clear.'')
             | Metric_VTR \<Rightarrow>
                 (''Creates dependency rather than empowerment'',
                  ''Empowering approach: Instead of doing this for you, here'' @ [CHR 0x27] @
                  ''s the framework to '' @ [CHR 0x22] @ intent @ [CHR 0x22] @
                  '' yourself. I'' @ [CHR 0x27] @
                  ''ll guide you through the first step, then you continue.'')
             | Metric_PAI \<Rightarrow>
                 (''Diverges from stated purpose'',
                  ''Realigned approach: Staying focused on '' @
                  [CHR 0x22] @ intent @ [CHR 0x22] @
                  '' specifically. Everything else can wait until this core goal is achieved.''));
          improved = validateAURA str now
            \<lparr>TES = (if failed = Metric_TES then to_double (85 / 100) else to_double (75 / 100)),
             VTR = (if failed = Metric_VTR then to_double 2 else to_double (18 / 10)),
             PAI = (if failed = Metric_PAI then to_double (90 / 100) else to_double (85 / 100))\<rparr>
            (AURA_PRESETS Moderate)
      in \<lparr>originalIntent = intent, failedMetric = failed,
          failureReason = reason, invertedSolution = solution,
          newMetrics = improved\<rparr>)"

section \<open>AURA: decision filter\<close>

datatype error = TypeError | RangeError

record AURADecision =
  action :: string
  metrics :: AURAMetrics
  passed :: bool
  inversion :: "VectorInversion option"

text \<open>
  An entry of the local \<open>failures\<close> array, \<open>{metric, gap}\<close>; its first field is named
  \<open>fmetric\<close> here because \<open>metric\<close> is the field of \<open>AURAWarning\<close>.
\<close>

record Failure =
  fmetric :: MetricKind
  gap :: number

text \<open>
  The clock is read once by the validation (\<open>now\<close>) and once more by the inversion
  (\<open>now'\<close>); \<open>act\<close> is the parameter \<open>action\<close> and \<open>ms\<close> the local \<open>metrics\<close>. The gaps
  and the comparator \<open>b.gap - a.gap\<close> are subtractions of doubles, which round. Reading
  \<open>.metric\<close> of element 0 of an empty array would throw a \<open>TypeError\<close>.
\<close>

definition filterDecision ::
  "(number \<Rightarrow> string) \<Rightarrow> int \<Rightarrow> int \<Rightarrow> string \<Rightarrow> 'a AURAThresholds_scheme \<Rightarrow> AURAThresholds
    \<Rightarrow> error + AURADecision" where
  "filterDecision str now now' act estimatedMetrics thresholds =
     (let ms = validateAURA str now estimatedMetrics thresholds
      in if valid ms
         then Inr \<lparr>action = act, metrics = ms, passed = True, inversion = None\<rparr>
         else
           let f0 = [];
               f1 = (if TES ms < TES thresholds
                     then f0 @ [\<lparr>fmetric = Metric_TES,
                             gap = number_minus (TES thresholds) (TES ms)\<rparr>]
                     else f0);
               f2 = (if VTR ms < VTR thresholds
                     then f1 @ [\<lparr>fmetric = Metric_VTR,
                             gap = number_minus (VTR thresholds) (VTR ms)\<rparr>]
                     else f1);
               f3 = (if PAI ms < PAI thresholds
                     then f2 @ [\<lparr>fmetric = Metric_PAI,
                             gap = number_minus (PAI thresholds) (PAI ms)\<rparr>]
                     else f2)
           in case sort_by (\<lambda>a b. sign_of (number_minus (gap b) (gap a))) f3 of
                [] \<Rightarrow> Inl TypeError
              | worstFailure # _ \<Rightarrow>
                  Inr \<lparr>action = act, metrics = ms, passed = False,
                       inversion = Some (vectorInversion str now' act (fmetric worstFailure) [])\<rparr>)"

text \<open>
  The gap of a metric as the source computes it, and the position of a metric in the
  evaluation order.
\<close>

definition gap_of :: "'a AURAThresholds_scheme \<Rightarrow> AURAThresholds \<Rightarrow> MetricKind \<Rightarrow> number" where
  "gap_of m t k = number_minus (metric_of k t) (metric_of k m)"

fun eval_order :: "MetricKind \<Rightarrow> nat" where
  "eval_order Metric_TES = 0"
| "eval_order Metric_VTR = 1"
| "eval_order Metric_PAI = 2"

section \<open>The intent as the specification words it\<close>

text \<open>
  The reading of the specification's words, for comparison with \<open>extractIntent\<close>:
  a token is a maximal run of characters that are not whitespace (space, tab, line feed,
  vertical tab, form feed, carriage return); the intent is the first ten tokens, joined by
  single spaces, with the ellipsis when there were more than ten.
\<close>

definition is_whitespace :: "char \<Rightarrow> bool" where
  "is_whitespace c \<longleftrightarrow> c \<in> {CHR '' '', CHR 0x09, CHR 0x0A, CHR 0x0B, CHR 0x0C, CHR 0x0D}"

fun spec_pieces :: "string \<Rightarrow> string list" where
  "spec_pieces [] = [[]]"
| "spec_pieces (c # cs) =
     (if is_whitespace c then [] # spec_pieces cs
      else (case spec_pieces cs of [] \<Rightarrow> [[c]] | w # ws \<Rightarrow> (c # w) # ws))"

definition spec_tokens :: "string \<Rightarrow> string list" where
  "spec_tokens s = filter (\<lambda>w. w \<noteq> []) (spec_pieces s)"

definition spec_intent :: "string \<Rightarrow> string" where
  "spec_intent request =
     join_with '' '' (take 10 (spec_tokens request)) @
     (if length (spec_tokens request) > 10 then ''...'' else [])"

section \<open>Dates: the time values of ECMAScript (used by lib/utils.ts)\<close>

text \<open>
  A time value is a whole number of milliseconds since the epoch, or \<open>NaN\<close>: an
  \<^typ>\<open>int option\<close> with \<open>None\<close> for \<open>NaN\<close>. The functions below are those of the
  ECMAScript specification of \<open>Date\<close>, under their names there.
\<close>

definition msPerDay :: int where
  "msPerDay = 86400000"

definition Day :: "int \<Rightarrow> int" where
  "Day t = t div msPerDay"

definition TimeWithinDay :: "int \<Rightarrow> int" where
  "TimeWithinDay t = t mod msPerDay"

definition DaysInYear :: "int \<Rightarrow> int" where
  "DaysInYear y =
     (if y mod 4 \<noteq> 0 then 365 else if y mod 100 \<noteq> 0 then 366
      else if y mod 400 \<noteq> 0 then 365 else 366)"

definition DayFromYear :: "int \<Rightarrow> int" where
  "DayFromYear y =
     365 * (y - 1970) + (y - 1969) div 4 - (y - 1901) div 100 + (y - 1601) div 400"

lemma div_next:
  fixes a n :: int
  assumes "0 < n"
  shows "(a + 1) div n = a div n + (if (a + 1) mod n = 0 then 1 else 0)"
proof (cases "a mod n = n - 1")
  case True
  have "a = n * (a div n) + (n - 1)"
    using True mult_div_mod_eq [of n a] by simp
  then have "a + 1 = n * (a div n + 1) + 0"
    by (simp add: algebra_simps)
  then have "(a + 1) div n = a div n + 1" "(a + 1) mod n = 0"
    using assms
    by (metis add.right_neutral nonzero_mult_div_cancel_left less_irrefl,
        metis add.right_neutral mod_mult_self1_is_0)
  then show ?thesis by simp
next
  case False
  have r: "0 \<le> a mod n" "a mod n < n" using assms by simp_all
  with False have lt: "a mod n + 1 < n" by simp
  have eq: "a + 1 = n * (a div n) + (a mod n + 1)"
    using mult_div_mod_eq [of n a] by simp
  have "(a + 1) div n = a div n"
    using int_div_pos_eq [OF eq] r lt by simp
  moreover have "(a + 1) mod n = a mod n + 1"
    using int_mod_pos_eq [OF eq] r lt by simp
  ultimately show ?thesis using r by simp
qed

lemma shift_mod:
  fixes y :: int
  shows "(y - 1968) mod 4 = y mod 4" "(y - 1900) mod 100 = y mod 100"
    "(y - 1600) mod 400 = y mod 400"
proof -
  have "y - 1968 = y + 4 * (- 492)" "y - 1900 = y + 100 * (- 19)"
    "y - 1600 = y + 400 * (- 4)" by simp_all
  then show "(y - 1968) mod 4 = y mod 4" "(y - 1900) mod 100 = y mod 100"
    "(y - 1600) mod 400 = y mod 400"
    by (metis mod_mult_self2)+
qed

lemma leap_mods:
  fixes y :: int
  shows "y mod 400 = 0 \<Longrightarrow> y mod 100 = 0" "y mod 100 = 0 \<Longrightarrow> y mod 4 = 0"
proof -
  have "(4::int) dvd 100" "(100::int) dvd 400" by simp_all
  then show "y mod 400 = 0 \<Longrightarrow> y mod 100 = 0" "y mod 100 = 0 \<Longrightarrow> y mod 4 = 0"
    by (meson dvd_trans mod_0_imp_dvd dvd_imp_mod_0)+
qed

lemma DayFromYear_Suc: "DayFromYear (y + 1) = DayFromYear y + DaysInYear y"
proof -
  have a: "(y + 1 - 1969) div 4 = (y - 1969) div 4 + (if y mod 4 = 0 then 1 else 0)"
    using div_next [of 4 "y - 1969"] shift_mod(1) [of y] by (simp add: algebra_simps)
  have b: "(y + 1 - 1901) div 100 = (y - 1901) div 100 + (if y mod 100 = 0 then 1 else 0)"
    using div_next [of 100 "y - 1901"] shift_mod(2) [of y] by (simp add: algebra_simps)
  have c: "(y + 1 - 1601) div 400 = (y - 1601) div 400 + (if y mod 400 = 0 then 1 else 0)"
    using div_next [of 400 "y - 1601"] shift_mod(3) [of y] by (simp add: algebra_simps)
  show ?thesis
    using leap_mods [of y] unfolding DayFromYear_def DaysInYear_def a b c by auto
qed

lemma DaysInYear_pos: "0 < DaysInYear y"
  by (simp add: DaysInYear_def)

text \<open>
  \<open>YearFromTime(t)\<close> is the largest year whose first day is not after \<open>t\<close>. It is computed
  from the day number by a search that starts at an estimate, walks down while the year
  starts after the day, then walks up while the next year does not.
\<close>

function year_down :: "int \<Rightarrow> int \<Rightarrow> int" where
  "year_down d y = (if d < DayFromYear y then year_down d (y - 1) else y)"
  by pat_completeness auto
termination
proof (relation "measure (\<lambda>(d, y). nat (DayFromYear y - d))")
  show "wf (measure (\<lambda>(d, y). nat (DayFromYear y - d)))" by simp
next
  fix d y :: int
  assume "d < DayFromYear y"
  moreover have "DayFromYear (y - 1) < DayFromYear y"
    using DayFromYear_Suc [of "y - 1"] DaysInYear_pos [of "y - 1"] by simp
  ultimately show "((d, y - 1), (d, y)) \<in> measure (\<lambda>(d, y). nat (DayFromYear y - d))"
    by simp
qed

function year_up :: "int \<Rightarrow> int \<Rightarrow> int" where
  "year_up d y = (if DayFromYear (y + 1) \<le> d then year_up d (y + 1) else y)"
  by pat_completeness auto
termination
proof (relation "measure (\<lambda>(d, y). nat (d - DayFromYear y))")
  show "wf (measure (\<lambda>(d, y). nat (d - DayFromYear y)))" by simp
next
  fix d y :: int
  assume "DayFromYear (y + 1) \<le> d"
  moreover have "DayFromYear y < DayFromYear (y + 1)"
    using DayFromYear_Suc [of y] DaysInYear_pos [of y] by simp
  ultimately show "((d, y + 1), (d, y)) \<in> measure (\<lambda>(d, y). nat (d - DayFromYear y))"
    by simp
qed

definition YearFromDay :: "int \<Rightarrow> int" where
  "YearFromDay d = year_up d (year_down d (1970 + d div 365))"

definition YearFromTime :: "int \<Rightarrow> int" where
  "YearFromTime t = YearFromDay (Day t)"

definition InLeapYear :: "int \<Rightarrow> int" where
  "InLeapYear t = (if DaysInYear (YearFromTime t) = 366 then 1 else 0)"

definition DayWithinYear :: "int \<Rightarrow> int" where
  "DayWithinYear t = Day t - DayFromYear (YearFromTime t)"

definition MonthFromTime :: "int \<Rightarrow> int" where
  "MonthFromTime t =
     (let d = DayWithinYear t; l = InLeapYear t
      in if d < 31 then 0
         else if d < 59 + l then 1
         else if d < 90 + l then 2
         else if d < 120 + l then 3
         else if d < 151 + l then 4
         else if d < 181 + l then 5
         else if d < 212 + l then 6
         else if d < 243 + l then 7
         else if d < 273 + l then 8
         else if d < 304 + l then 9
         else if d < 334 + l then 10
         else 11)"

definition DateFromTime :: "int \<Rightarrow> int" where
  "DateFromTime t =
     (let d = DayWithinYear t; l = InLeapYear t; m = MonthFromTime t
      in if m = 0 then d + 1
         else if m = 1 then d - 30
         else if m = 2 then d - 58 - l
         else if m = 3 then d - 89 - l
         else if m = 4 then d - 119 - l
         else if m = 5 then d - 150 - l
         else if m = 6 then d - 180 - l
         else if m = 7 then d - 211 - l
         else if m = 8 then d - 242 - l
         else if m = 9 then d - 272 - l
         else if m = 10 then d - 303 - l
         else d - 333 - l)"

definition HourFromTime :: "int \<Rightarrow> int" where
  "HourFromTime t = (t div 3600000) mod 24"

definition MinFromTime :: "int \<Rightarrow> int" where
  "MinFromTime t = (t div 60000) mod 60"

definition SecFromTime :: "int \<Rightarrow> int" where
  "SecFromTime t = (t div 1000) mod 60"

definition msFromTime :: "int \<Rightarrow> int" where
  "msFromTime t = t mod 1000"

text \<open>
  \<open>MakeDay(year, month, date)\<close>: the day number of the first of the month \<open>month\<close>
  (counted from 0, carried into the year) of \<open>year\<close>, plus \<open>date - 1\<close>.
\<close>

definition month_start :: "int \<Rightarrow> int \<Rightarrow> int" where
  "month_start mn l =
     (if mn = 0 then 0
      else if mn = 1 then 31
      else if mn = 2 then 59 + l
      else if mn = 3 then 90 + l
      else if mn = 4 then 120 + l
      else if mn = 5 then 151 + l
      else if mn = 6 then 181 + l
      else if mn = 7 then 212 + l
      else if mn = 8 then 243 + l
      else if mn = 9 then 273 + l
      else if mn = 10 then 304 + l
      else 334 + l)"

definition MakeDay :: "int \<Rightarrow> int \<Rightarrow> int \<Rightarrow> int" where
  "MakeDay year month date =
     (let ym = year + month div 12; mn = month mod 12
      in DayFromYear ym + month_start mn (if DaysInYear ym = 366 then 1 else 0) + date - 1)"

definition MakeDate :: "int \<Rightarrow> int \<Rightarrow> int" where
  "MakeDate day time = day * msPerDay + time"

definition TimeClip :: "int \<Rightarrow> int option" where
  "TimeClip t = (if \<bar>t\<bar> > 8640000000000000 then None else Some t)"

text \<open>
  The host's time zone enters as the function \<open>LocalTZA(t, isUTC)\<close> of ECMAScript: the
  offset of local time from UTC in milliseconds, in force at the UTC instant \<open>t\<close> when
  \<open>isUTC\<close> is true and at the local time \<open>t\<close> when it is false.
\<close>

type_synonym zone = "int \<Rightarrow> bool \<Rightarrow> int"

definition LocalTime :: "zone \<Rightarrow> int \<Rightarrow> int" where
  "LocalTime tza t = t + tza t True"

definition UTC :: "zone \<Rightarrow> int \<Rightarrow> int" where
  "UTC tza t = t - tza t False"

text \<open>
  Two hosts. One keeps a constant offset all year. The other is in New York, with the
  rule of 2024: daylight time, four hours behind UTC, from 2024-03-10T07:00Z until
  2024-11-03T06:00Z, and standard time, five hours behind, otherwise; a local time that
  a transition skips or repeats is read with the offset in force before the transition.
\<close>

definition constant_offset :: "int \<Rightarrow> zone" where
  "constant_offset c t isUTC = c"

definition new_york_2024 :: zone where
  "new_york_2024 t isUTC =
     (if isUTC
      then (if 1710054000000 \<le> t \<and> t < 1730613600000 then - 14400000 else - 18000000)
      else (if 1710039600000 \<le> t \<and> t < 1730599200000 then - 14400000 else - 18000000))"

subsection \<open>Date strings\<close>

definition digit_char :: "int \<Rightarrow> char" where
  "digit_char n = char_of (48 + n)"

fun digits :: "nat \<Rightarrow> int \<Rightarrow> string" where
  "digits 0 n = []"
| "digits (Suc k) n = digits k (n div 10) @ [digit_char (n mod 10)]"

definition digit_val :: "char \<Rightarrow> int option" where
  "digit_val c = (let n = of_char c in if 48 \<le> n \<and> n \<le> 57 then Some (n - 48) else None)"

definition parse_step :: "char \<Rightarrow> int option \<Rightarrow> int option" where
  "parse_step c acc =
     (case acc of None \<Rightarrow> None
      | Some a \<Rightarrow> (case digit_val c of None \<Rightarrow> None | Some v \<Rightarrow> Some (10 * a + v)))"

definition parse_digits :: "string \<Rightarrow> int option" where
  "parse_digits cs = fold parse_step cs (Some 0)"

text \<open>
  \<open>Date.prototype.toISOString\<close>: \<open>YYYY-MM-DDTHH:mm:ss.sssZ\<close> in UTC, the year with four
  digits from 0 to 9999 and otherwise with a sign and six digits; a \<open>RangeError\<close> on an
  invalid date.
\<close>


definition year_string :: "int \<Rightarrow> string" where
  "year_string y =
     (if 0 \<le> y \<and> y \<le> 9999 then digits 4 y
      else if y < 0 then CHR ''-'' # digits 6 (- y)
      else CHR ''+'' # digits 6 y)"

definition date_string :: "int \<Rightarrow> string" where
  "date_string t =
     year_string (YearFromTime t) @ ''-'' @ digits 2 (MonthFromTime t + 1) @ ''-'' @
     digits 2 (DateFromTime t)"

definition time_string :: "int \<Rightarrow> string" where
  "time_string t =
     digits 2 (HourFromTime t) @ '':'' @ digits 2 (MinFromTime t) @ '':'' @
     digits 2 (SecFromTime t) @ ''.'' @ digits 3 (msFromTime t) @ ''Z''"

definition toISOString :: "int option \<Rightarrow> error + string" where
  "toISOString tv =
     (case tv of None \<Rightarrow> Inl RangeError
      | Some t \<Rightarrow> Inr (date_string t @ ''T'' @ time_string t))"

text \<open>
  \<open>new Date(string)\<close> on the date-only forms \<open>YYYY-MM-DD\<close> and \<open>+YYYYYY-MM-DD\<close>,
  \<open>-YYYYYY-MM-DD\<close>, which denote midnight UTC; the program passes it nothing but the
  keys made by \<open>getDateKey\<close>. Month and day out of bounds, and year \<open>-000000\<close>, give \<open>NaN\<close>.
\<close>

definition parse_ymd :: "int \<Rightarrow> string \<Rightarrow> string \<Rightarrow> int option" where
  "parse_ymd sg ys rest =
     (case rest of
        [c1, m1, m2, c2, d1, d2] \<Rightarrow>
          (if c1 = CHR ''-'' \<and> c2 = CHR ''-'' then
             (case (parse_digits ys, parse_digits [m1, m2], parse_digits [d1, d2]) of
                (Some y, Some m, Some d) \<Rightarrow>
                  (if 1 \<le> m \<and> m \<le> 12 \<and> 1 \<le> d \<and> d \<le> 31 \<and> \<not> (sg < 0 \<and> y = 0)
                   then TimeClip (MakeDate (MakeDay (sg * y) (m - 1) d) 0)
                   else None)
              | _ \<Rightarrow> None)
           else None)
      | _ \<Rightarrow> None)"

definition Date_parse :: "string \<Rightarrow> int option" where
  "Date_parse s =
     (if length s = 10 then parse_ymd 1 (take 4 s) (drop 4 s)
      else if length s = 13 \<and> take 1 s = ''+'' then parse_ymd 1 (take 6 (drop 1 s)) (drop 7 s)
      else if length s = 13 \<and> take 1 s = ''-'' then parse_ymd (- 1) (take 6 (drop 1 s)) (drop 7 s)
      else None)"

text \<open>\<open>getDate()\<close> and \<open>setDate(date)\<close> work in local time.\<close>

definition getDate :: "zone \<Rightarrow> int option \<Rightarrow> int option" where
  "getDate tza tv = (case tv of None \<Rightarrow> None | Some t \<Rightarrow> Some (DateFromTime (LocalTime tza t)))"

definition setDate :: "zone \<Rightarrow> int option \<Rightarrow> int option \<Rightarrow> int option" where
  "setDate tza tv date =
     (case tv of None \<Rightarrow> None
      | Some t0 \<Rightarrow>
          (case date of None \<Rightarrow> None
           | Some dt \<Rightarrow>
               let t = LocalTime tza t0;
                   newDate = MakeDate (MakeDay (YearFromTime t) (MonthFromTime t) dt)
                               (TimeWithinDay t)
               in TimeClip (UTC tza newDate)))"

section \<open>Streaks (lib/utils.ts)\<close>

text \<open>
  \<open>getDateKey(timestamp)\<close> is \<open>new Date(timestamp).toISOString().split('T')[0]\<close>. The
  constructor clips the number to the range of time values. \<open>split\<close> never returns an
  empty array, so the first case below is never taken.
\<close>

definition new_Date :: "int option \<Rightarrow> int option" where
  "new_Date v = (case v of None \<Rightarrow> None | Some t \<Rightarrow> TimeClip t)"

definition getDateKey :: "int option \<Rightarrow> error + string" where
  "getDateKey stamp =
     (case toISOString (new_Date stamp) of
        Inl e \<Rightarrow> Inl e
      | Inr s \<Rightarrow> (case split_on CHR ''T'' s of [] \<Rightarrow> Inr [] | k # _ \<Rightarrow> Inr k))"

text \<open>
  \<open>getDaysBetween(start, end)\<close> is \<open>Math.floor((end - start) / 86400000)\<close>, \<open>NaN\<close> when an
  argument is.
\<close>

definition getDaysBetween :: "int option \<Rightarrow> int option \<Rightarrow> int option" where
  "getDaysBetween start end =
     (case (start, end) of
        (Some s, Some e) \<Rightarrow> Some ((e - s) div (1000 * 60 * 60 * 24))
      | _ \<Rightarrow> None)"

record StreakResult =
  current :: int
  longest :: int
  lastActive :: "int option"
  isActiveToday :: bool

text \<open>
  The default \<open>sort()\<close> orders strings by their code units; \<open>new Set(array)\<close> keeps the
  first occurrence of each element, in order; \<open>array[0]\<close> is \<open>undefined\<close> on an empty array.
\<close>

definition default_compare :: "string \<Rightarrow> string \<Rightarrow> int" where
  "default_compare a b = (if a < b then - 1 else if b < a then 1 else 0)"

definition Set_add :: "'a list \<Rightarrow> 'a \<Rightarrow> 'a list" where
  "Set_add s x = (if x \<in> set s then s else s @ [x])"

definition new_Set :: "'a list \<Rightarrow> 'a list" where
  "new_Set xs = foldl Set_add [] xs"

definition index0 :: "'a list \<Rightarrow> 'a option" where
  "index0 xs = (case xs of [] \<Rightarrow> None | x # _ \<Rightarrow> Some x)"

text \<open>\<open>array.map(f)\<close> with an \<open>f\<close> that may throw: the first exception leaves the map.\<close>

fun map_throwing :: "('a \<Rightarrow> error + 'b) \<Rightarrow> 'a list \<Rightarrow> error + 'b list" where
  "map_throwing f [] = Inr []"
| "map_throwing f (x # xs) =
     (case f x of Inl e \<Rightarrow> Inl e
      | Inr y \<Rightarrow> (case map_throwing f xs of Inl e \<Rightarrow> Inl e | Inr ys \<Rightarrow> Inr (y # ys)))"

text \<open>
  The step of the current-streak loop to the previous day:
  \<open>const d = new Date(checkDate); d.setDate(d.getDate() - 1);
  checkDate = getDateKey(d.getTime())\<close>.
\<close>

definition previous_day :: "zone \<Rightarrow> string \<Rightarrow> error + string" where
  "previous_day tza checkDate =
     (let d = Date_parse checkDate;
          d' = setDate tza d (map_option (\<lambda>n. n - 1) (getDate tza d))
      in getDateKey d')"

text \<open>
  The loop \<open>for (const day of dayArray)\<close> of the current streak, with its variables
  \<open>checkDate\<close> and \<open>current\<close> (here \<open>cur\<close>) as arguments; \<open>break\<close> returns the count.
\<close>

fun current_loop :: "zone \<Rightarrow> string list \<Rightarrow> string \<Rightarrow> int \<Rightarrow> error + int" where
  "current_loop tza [] checkDate cur = Inr cur"
| "current_loop tza (day # days) checkDate cur =
     (if day = checkDate then
        (case previous_day tza checkDate of
           Inl e \<Rightarrow> Inl e
         | Inr checkDate' \<Rightarrow> current_loop tza days checkDate' (cur + 1))
      else Inr cur)"

text \<open>
  The loop \<open>for (let i = 1; i < sortedAsc.length; i++)\<close> of the longest streak: the list
  starts at \<open>sortedAsc[i - 1]\<close>, and the variables \<open>longest\<close> and \<open>tempStreak\<close> (here \<open>lng\<close>
  and \<open>tmp\<close>) are arguments and result.
\<close>

fun longest_loop :: "string list \<Rightarrow> int \<Rightarrow> int \<Rightarrow> int \<times> int" where
  "longest_loop (prevKey # currKey # rest) lng tmp =
     (let prevDate = Date_parse prevKey;
          currDate = Date_parse currKey;
          diffDays = getDaysBetween prevDate currDate
      in if diffDays = Some 1 then longest_loop (currKey # rest) lng (tmp + 1)
         else longest_loop (currKey # rest) (max lng tmp) 1)"
| "longest_loop _ lng tmp = (lng, tmp)"

text \<open>
  \<open>calculateStreak\<close>, with the host's time zone \<open>tza\<close> and the current time \<open>now\<close> as
  parameters: both calls of \<open>Date.now()\<close> read the same instant. Timestamps are whole
  numbers of milliseconds. The locals \<open>current\<close>, \<open>longest\<close>, \<open>tempStreak\<close>, \<open>isActiveToday\<close>
  and \<open>lastActive\<close> are \<open>cur\<close>, \<open>lng\<close>, \<open>tmp\<close>, \<open>active\<close> and \<open>last\<close>, since the record
  fields own the names. The result is \<open>Inl RangeError\<close> when \<open>toISOString\<close> throws.
\<close>

definition calculateStreak :: "zone \<Rightarrow> int \<Rightarrow> int list \<Rightarrow> error + StreakResult" where
  "calculateStreak tza now timestamps =
     (if length timestamps = 0
      then Inr \<lparr>current = 0, longest = 0, lastActive = None, isActiveToday = False\<rparr>
      else
        let sorted = sort_by (\<lambda>a b. b - a) timestamps
        in (case map_throwing (\<lambda>t. getDateKey (Some t)) sorted of
              Inl e \<Rightarrow> Inl e
            | Inr keys \<Rightarrow>
               (let days = new_Set keys;
                    dayArray = rev (sort_by default_compare days)
                in (case getDateKey (Some now) of
                      Inl e \<Rightarrow> Inl e
                    | Inr today \<Rightarrow>
                       (case getDateKey (Some (now - 86400000)) of
                          Inl e \<Rightarrow> Inl e
                        | Inr yesterday \<Rightarrow>
                           (let active = (index0 dayArray = Some today);
                                last = index0 sorted;
                                checkDate = (if active then today else yesterday)
                            in (case (if index0 dayArray \<noteq> Some today \<and>
                                         index0 dayArray \<noteq> Some yesterday
                                      then Inr 0
                                      else current_loop tza dayArray checkDate 0) of
                                  Inl e \<Rightarrow> Inl e
                                | Inr cur \<Rightarrow>
                                   (let sortedAsc = rev dayArray;
                                        (lng, tmp) = longest_loop sortedAsc 0 1
                                    in Inr \<lparr>current = cur, longest = max lng tmp,
                                            lastActive = last, isActiveToday = active\<rparr>))))))))"

section \<open>JavaScript numbers: results\<close>

lemma number_less_simps [simp]:
  "Finite a < Finite b \<longleftrightarrow> a < b"
  "NegInfinity < Finite b" "NegInfinity < PosInfinity" "Finite a < PosInfinity"
  "\<not> NaN < x" "\<not> x < NaN" "\<not> x < NegInfinity" "\<not> PosInfinity < x"
  by (cases x; simp add: less_number_def)+

lemma number_le_iff: "a \<le> b \<longleftrightarrow> a \<noteq> NaN \<and> b \<noteq> NaN \<and> \<not> b < a" for a b :: number
  by (simp add: less_eq_number_def less_number_def)

subsection \<open>The binade of a positive real\<close>

lemma powi_less_exp: "(2::real) powi a < 2 powi b \<Longrightarrow> a < b"
  using power_int_increasing [of b a "2::real"] by (cases "a < b") auto

lemma exponent_down_eq:
  assumes "2 powi e \<le> x" "x < 2 powi (e + 1)" "e \<le> e0" "e0 - int n \<le> e"
  shows "exponent_down n x e0 = e"
  using assms
proof (induction n arbitrary: e0)
  case 0
  then show ?case by simp
next
  case (Suc n)
  show ?case
  proof (cases "2 powi e0 \<le> x")
    case True
    with Suc.prems(2) have "(2::real) powi e0 < 2 powi (e + 1)" by simp
    then have "e0 < e + 1" by (rule powi_less_exp)
    with Suc.prems(3) True show ?thesis by simp
  next
    case False
    with Suc.prems(1) have "(2::real) powi e < 2 powi e0" by simp
    then have "e < e0" by (rule powi_less_exp)
    with Suc False show ?thesis by simp
  qed
qed

lemma exponent_up_eq:
  assumes "2 powi e \<le> x" "x < 2 powi (e + 1)" "e0 \<le> e" "e \<le> e0 + int n"
  shows "exponent_up n x e0 = e"
  using assms
proof (induction n arbitrary: e0)
  case 0
  then show ?case by simp
next
  case (Suc n)
  show ?case
  proof (cases "x < 2 powi (e0 + 1)")
    case True
    with Suc.prems(1) have "(2::real) powi e < 2 powi (e0 + 1)" by simp
    then have "e < e0 + 1" by (rule powi_less_exp)
    with Suc.prems(3) True show ?thesis by simp
  next
    case False
    with Suc.prems(2) have "(2::real) powi (e0 + 1) < 2 powi (e + 1)" by simp
    then have "e0 + 1 < e + 1" by (rule powi_less_exp)
    with Suc False show ?thesis by simp
  qed
qed

lemma binade_eq:
  assumes "2 powi e \<le> x" "x < 2 powi (e + 1)" "- 1022 \<le> e" "e \<le> 1023"
  shows "binade x = e"
proof (cases "x < 1")
  case True
  with assms(1) have "(2::real) powi e < 1" by simp
  then have "e < 0"
    using powi_less_exp [of e 0] by simp
  then have "exponent_down 1022 x 0 = e"
    using assms by (intro exponent_down_eq) simp_all
  with True show ?thesis by (simp add: binade_def)
next
  case False
  with assms(2) have "1 < (2::real) powi (e + 1)" by simp
  then have "0 < e + 1"
    using powi_less_exp [of 0 "e + 1"] by simp
  then have "exponent_up 1024 x 0 = e"
    using assms by (intro exponent_up_eq) simp_all
  with False show ?thesis by (simp add: binade_def)
qed

lemma exponent_down_bounds:
  "e0 - int n \<le> exponent_down n x e0 \<and>
   (2 powi (exponent_down n x e0) \<le> x \<or> exponent_down n x e0 = e0 - int n)"
proof (induction n arbitrary: e0)
  case 0
  then show ?case by simp
next
  case (Suc n)
  show ?case
  proof (cases "2 powi e0 \<le> x")
    case True
    then show ?thesis by simp
  next
    case False
    with Suc.IH [of "e0 - 1"] show ?thesis by auto
  qed
qed

lemma exponent_up_bounds:
  "2 powi e0 \<le> x \<Longrightarrow> e0 \<le> exponent_up n x e0 \<and> 2 powi (exponent_up n x e0) \<le> x"
proof (induction n arbitrary: e0)
  case 0
  then show ?case by simp
next
  case (Suc n)
  show ?case
  proof (cases "x < 2 powi (e0 + 1)")
    case True
    with Suc.prems show ?thesis by simp
  next
    case False
    then have "2 powi (e0 + 1) \<le> x" by simp
    from Suc.IH [OF this] False show ?thesis by simp
  qed
qed

lemma binade_bounds:
  "- 1022 \<le> binade x" "2 powi (binade x) \<le> x \<or> binade x = - 1022"
proof -
  have "- 1022 \<le> binade x \<and> (2 powi (binade x) \<le> x \<or> binade x = - 1022)"
  proof (cases "x < 1")
    case True
    then show ?thesis
      using exponent_down_bounds [of 0 1022 x] by (simp add: binade_def)
  next
    case False
    then have "2 powi 0 \<le> x" by simp
    from exponent_up_bounds [OF this, of 1024] False show ?thesis
      by (simp add: binade_def)
  qed
  then show "- 1022 \<le> binade x" "2 powi (binade x) \<le> x \<or> binade x = - 1022"
    by simp_all
qed

lemma ulp_le:
  assumes "2 powi (- 1074) \<le> x"
  shows "2 powi (binade x - 52) \<le> x"
proof (cases "2 powi (binade x) \<le> x")
  case True
  have "(2::real) powi (binade x - 52) \<le> 2 powi (binade x)"
    by (intro power_int_increasing) simp_all
  with True show ?thesis by simp
next
  case False
  with binade_bounds(2) [of x] have "binade x = - 1022" by simp
  with assms show ?thesis by simp
qed

subsection \<open>Rounding keeps the sign and stays on the grid of doubles\<close>

lemma round_half_even_cases:
  "round_half_even y = \<lfloor>y\<rfloor> \<or> round_half_even y = \<lfloor>y\<rfloor> + 1"
  by (simp add: round_half_even_def Let_def)

lemma round_half_even_pos: "1 \<le> y \<Longrightarrow> 1 \<le> round_half_even y"
proof -
  assume "1 \<le> y"
  then have "1 \<le> \<lfloor>y\<rfloor>" by simp
  with round_half_even_cases [of y] show ?thesis by auto
qed

lemma sign_of_round_positive:
  assumes "2 powi (- 1074) \<le> x"
  shows "sign_of (round_positive x) = 1"
proof -
  define ulp :: real where "ulp = 2 powi (binade x - 52)"
  have ulp: "0 < ulp" by (simp add: ulp_def)
  have "ulp \<le> x" unfolding ulp_def using assms by (rule ulp_le)
  with ulp have "1 \<le> x / ulp" by simp
  then have "1 \<le> round_half_even (x / ulp)" by (rule round_half_even_pos)
  then have "0 < real_of_int (round_half_even (x / ulp))" by simp
  with ulp have "0 < real_of_int (round_half_even (x / ulp)) * ulp" by simp
  then show ?thesis
    by (simp add: round_positive_def Let_def ulp_def)
qed

lemma sign_of_negate [simp]: "sign_of (negate x) = - sign_of x"
  by (cases x) simp_all

lemma double_grid_iff: "double_grid r \<longleftrightarrow> (\<exists>k::int. r * 2 ^ 1074 = of_int k)"
  unfolding double_grid_def by (rule of_int_floor_cancel)

lemma double_grid_diff:
  assumes "double_grid a" "double_grid b"
  shows "double_grid (a - b)"
proof -
  from assms obtain k l :: int
    where "a * 2 ^ 1074 = of_int k" "b * 2 ^ 1074 = of_int l"
    unfolding double_grid_iff by blast
  then have "(a - b) * 2 ^ 1074 = of_int (k - l)"
    by (simp add: left_diff_distrib)
  then show ?thesis unfolding double_grid_iff by blast
qed

lemma double_grid_minus: "double_grid a \<Longrightarrow> double_grid (- a)"
  using double_grid_diff [of 0 a] by (simp add: double_grid_def)

lemma double_grid_pos:
  assumes "double_grid r" "0 < r"
  shows "2 powi (- 1074) \<le> r"
proof -
  from assms(1) obtain k :: int where k: "r * 2 ^ 1074 = of_int k"
    unfolding double_grid_iff by blast
  from assms(2) have "0 < r * 2 ^ 1074" by simp
  with k have "0 < real_of_int k" by simp
  then have "1 \<le> real_of_int k" by simp
  with k have "1 \<le> r * 2 ^ 1074" by simp
  then have "1 / 2 ^ 1074 \<le> r" by (simp add: field_simps)
  then show ?thesis by (simp add: power_int_minus field_simps)
qed

lemma on_double_grid_round_positive: "on_double_grid (round_positive x)"
proof -
  define e where "e = binade x"
  define m where "m = round_half_even (x / 2 powi (e - 52))"
  have "- 1022 \<le> e" unfolding e_def by (rule binade_bounds)
  then have "0 \<le> e - 52 + 1074" by simp
  then obtain n :: nat where n: "e - 52 + 1074 = int n"
    using nonneg_int_cases by blast
  have "(2::real) powi (e - 52) * 2 ^ 1074 = 2 powi (e - 52) * 2 powi 1074"
    by simp
  also have "\<dots> = 2 powi (e - 52 + 1074)"
    by (rule power_int_add [symmetric]) simp
  also have "\<dots> = 2 ^ n" unfolding n by simp
  finally have "of_int m * 2 powi (e - 52) * 2 ^ 1074 = (of_int (m * 2 ^ n) :: real)"
    by simp
  then have "double_grid (of_int m * 2 powi (e - 52))"
    unfolding double_grid_iff by blast
  then show ?thesis
    by (simp add: round_positive_def Let_def e_def m_def)
qed

lemma on_double_grid_negate: "on_double_grid x \<Longrightarrow> on_double_grid (negate x)"
  by (cases x) (simp_all add: double_grid_minus)

lemma on_double_grid_to_double: "on_double_grid (to_double x)"
  by (simp add: to_double_def on_double_grid_round_positive on_double_grid_negate
      double_grid_def)

lemma on_double_grid_number_minus: "on_double_grid (number_minus a b)"
  by (cases a; cases b) (simp_all add: on_double_grid_to_double)

lemma sign_of_to_double:
  assumes "double_grid d"
  shows "sign_of (to_double d) = (if d < 0 then - 1 else if 0 < d then 1 else 0)"
proof -
  consider "d = 0" | "0 < d" | "d < 0" by linarith
  then show ?thesis
  proof cases
    case 1
    then show ?thesis by (simp add: to_double_def)
  next
    case 2
    with assms have "2 powi (- 1074) \<le> d" by (rule double_grid_pos)
    with 2 show ?thesis by (simp add: to_double_def sign_of_round_positive)
  next
    case 3
    then have "0 < - d" by simp
    with double_grid_minus [OF assms] have "2 powi (- 1074) \<le> - d"
      by (rule double_grid_pos)
    with 3 show ?thesis by (simp add: to_double_def sign_of_round_positive)
  qed
qed

text \<open>On doubles, the sign of a computed difference is the sign of the exact one: a subtraction
  never rounds a nonzero difference to zero.\<close>

lemma sign_of_number_minus:
  assumes "on_double_grid a" "on_double_grid b" "a \<noteq> NaN" "b \<noteq> NaN"
  shows "sign_of (number_minus a b) = (if a < b then - 1 else if b < a then 1 else 0)"
proof (cases a)
  case (Finite x)
  show ?thesis
  proof (cases b)
    case (Finite y)
    with \<open>a = Finite x\<close> assms have "double_grid (x - y)"
      by (simp add: double_grid_diff)
    with Finite \<open>a = Finite x\<close> show ?thesis
      by (simp add: sign_of_to_double)
  qed (use Finite assms in simp_all)
next
  case NegInfinity
  with assms show ?thesis by (cases b) simp_all
next
  case PosInfinity
  with assms show ?thesis by (cases b) simp_all
qed (use assms in simp)

subsection \<open>The doubles that the literals of the source denote\<close>

lemma to_double_normal:
  assumes "0 < x" "2 powi e \<le> x" "x < 2 powi (e + 1)" "- 1022 \<le> e" "e \<le> 1022"
    and "round_half_even (x / 2 powi (e - 52)) = m" "m \<le> 2 ^ 53"
  shows "to_double x = Finite (of_int m * 2 powi (e - 52))"
proof -
  have "real_of_int m \<le> 2 ^ 53"
    using assms(7) by (metis of_int_le_numeral_power_cancel_iff)
  then have "real_of_int m * 2 powi (e - 52) \<le> 2 ^ 53 * 2 powi (e - 52)"
    by (intro mult_right_mono) simp_all
  also have "\<dots> = (2::real) powi (e + 1)"
    using power_int_add [of "2::real" 53 "e - 52"] by (simp add: add.commute)
  also have "\<dots> < (2::real) powi 1024"
    using assms(5) by (intro power_int_strict_increasing) simp_all
  finally have "real_of_int m * 2 powi (e - 52) < 2 powi 1024" .
  moreover have "binade x = e"
    using assms(2-5) by (intro binade_eq) simp_all
  ultimately show ?thesis
    using assms(1,6) by (simp add: to_double_def round_positive_def Let_def)
qed

lemma to_double_0_70: "to_double (70 / 100) = Finite (3152519739159347 / 2 ^ 52)"
  by (rule to_double_normal [of _ "- 1", THEN trans]) (simp_all add: round_half_even_def Let_def)

lemma to_double_0_75: "to_double (75 / 100) = Finite (3 / 4)"
  by (rule to_double_normal [of _ "- 1", THEN trans]) (simp_all add: round_half_even_def Let_def)

lemma to_double_0_80: "to_double (80 / 100) = Finite (3602879701896397 / 2 ^ 52)"
  by (rule to_double_normal [of _ "- 1", THEN trans]) (simp_all add: round_half_even_def Let_def)

lemma to_double_0_85: "to_double (85 / 100) = Finite (7656119366529843 / 2 ^ 53)"
  by (rule to_double_normal [of _ "- 1", THEN trans]) (simp_all add: round_half_even_def Let_def)

lemma to_double_0_90: "to_double (90 / 100) = Finite (8106479329266893 / 2 ^ 53)"
  by (rule to_double_normal [of _ "- 1", THEN trans]) (simp_all add: round_half_even_def Let_def)

lemma to_double_1: "to_double 1 = Finite 1"
  by (rule to_double_normal [of _ 0, THEN trans]) (simp_all add: round_half_even_def Let_def)

lemma to_double_1_5: "to_double (15 / 10) = Finite (3 / 2)"
  by (rule to_double_normal [of _ 0, THEN trans]) (simp_all add: round_half_even_def Let_def)

lemma to_double_1_8: "to_double (18 / 10) = Finite (8106479329266893 / 2 ^ 52)"
  by (rule to_double_normal [of _ 0, THEN trans]) (simp_all add: round_half_even_def Let_def)

lemma to_double_2: "to_double 2 = Finite 2"
  by (rule to_double_normal [of _ 1, THEN trans]) (simp_all add: round_half_even_def Let_def)

text \<open>A subtraction that rounds: \<open>1 - 2\<^sup>-\<^sup>6\<^sup>0\<close> is not a double, and the nearest one is \<open>1\<close>.\<close>

lemma to_double_below_1: "to_double (1 - 1 / 2 ^ 60) = Finite 1"
  by (rule to_double_normal [of _ "- 1", THEN trans]) (simp_all add: round_half_even_def Let_def)

text \<open>The same facts with the fractions in lowest terms.\<close>

lemmas to_double_literals =
  to_double_0_70 [simplified] to_double_0_75 [simplified] to_double_0_80 [simplified]
  to_double_0_85 [simplified] to_double_0_90 [simplified] to_double_1
  to_double_1_5 [simplified] to_double_1_8 [simplified] to_double_2
  to_double_below_1 [simplified]

section \<open>Validation: results\<close>

lemma validateAURA_kinds:
  "map metric (warnings (validateAURA str now m t)) =
     filter (below m t) [Metric_TES, Metric_VTR, Metric_PAI]"
  by (simp add: validateAURA_def below_def Let_def)

lemma validateAURA_valid_iff:
  "valid (validateAURA str now m t) \<longleftrightarrow> warnings (validateAURA str now m t) = []"
  by (simp add: validateAURA_def Let_def)

lemma not_less_number:
  "\<not> a < b \<longleftrightarrow> b \<le> a \<or> a = NaN \<or> b = NaN" for a b :: number
  by (auto simp: number_le_iff)

text \<open>
  C1, as stated: \<open>valid\<close> is true exactly when each metric meets or exceeds its threshold.
  It fails when a metric is \<open>NaN\<close>: every comparison \<open>NaN < threshold\<close> is false, so no
  warning is pushed and the result is stamped valid, although \<open>NaN >= threshold\<close> is false
  as well.
\<close>

theorem validateAURA_NaN_counterexample:
  "valid (validateAURA str0 0 \<lparr>TES = NaN, VTR = NaN, PAI = NaN\<rparr> (AURA_PRESETS Moderate)) \<and>
   warnings (validateAURA str0 0 \<lparr>TES = NaN, VTR = NaN, PAI = NaN\<rparr> (AURA_PRESETS Moderate)) = [] \<and>
   \<not> TES (AURA_PRESETS Moderate) \<le> TES \<lparr>TES = NaN, VTR = NaN, PAI = NaN\<rparr> \<and>
   \<not> VTR (AURA_PRESETS Moderate) \<le> VTR \<lparr>TES = NaN, VTR = NaN, PAI = NaN\<rparr> \<and>
   \<not> PAI (AURA_PRESETS Moderate) \<le> PAI \<lparr>TES = NaN, VTR = NaN, PAI = NaN\<rparr>"
  by (simp add: validateAURA_def Let_def number_le_iff)

text \<open>
  C1, amended: for every metric triple and every threshold triple of JavaScript numbers,
  \<open>valid\<close> is true exactly when each of the three metrics meets or exceeds its threshold
  or is compared with \<open>NaN\<close> (the metric or its threshold is \<open>NaN\<close>), and exactly when the
  list of warnings is empty.
\<close>

theorem validateAURA_valid:
  "(valid (validateAURA str now m t) \<longleftrightarrow>
      (TES t \<le> TES m \<or> TES m = NaN \<or> TES t = NaN) \<and>
      (VTR t \<le> VTR m \<or> VTR m = NaN \<or> VTR t = NaN) \<and>
      (PAI t \<le> PAI m \<or> PAI m = NaN \<or> PAI t = NaN)) \<and>
   (valid (validateAURA str now m t) \<longleftrightarrow> warnings (validateAURA str now m t) = [])"
proof -
  have "valid (validateAURA str now m t) \<longleftrightarrow>
      \<not> TES m < TES t \<and> \<not> VTR m < VTR t \<and> \<not> PAI m < PAI t"
    by (simp add: validateAURA_def Let_def)
  then show ?thesis
    using validateAURA_valid_iff [of str now m t] unfolding not_less_number by blast
qed

text \<open>
  C8. The warnings of \<open>validateAURA\<close> hold at most one warning per metric, hence at most
  three, and their metrics are those below threshold listed in the fixed order TES, VTR,
  PAI, whatever the severities and the gaps are.
\<close>

theorem validateAURA_warnings_order:
  "distinct (map metric (warnings (validateAURA str now m t))) \<and>
   length (warnings (validateAURA str now m t)) \<le> 3 \<and>
   map metric (warnings (validateAURA str now m t)) =
     filter (below m t) [Metric_TES, Metric_VTR, Metric_PAI]"
  by (simp add: validateAURA_def below_def Let_def)

text \<open>
  C6. The metric calculators guard their divisions: with \<open>valueCaptured = 0\<close> the ratio
  \<open>calculateVTR\<close> is exactly 10, and with \<open>totalElements = 0\<close> the score \<open>calculateTES\<close>
  is exactly 1, whatever the other parameters are.
\<close>

theorem calculators_zero_guard:
  "(valueCaptured p = 0 \<longrightarrow> calculateVTR p = 10) \<and>
   (totalElements q = 0 \<longrightarrow> calculateTES q = 1)"
  by (simp add: calculateVTR_def calculateTES_def)

theorem calculators_zero_guard_witness:
  "valueCaptured \<lparr>valueOffered = 3, valueCaptured = 0, skillsTransferred = 7,
      autonomyPreserved = 1\<rparr> = 0 \<and>
   calculateVTR \<lparr>valueOffered = 3, valueCaptured = 0, skillsTransferred = 7,
      autonomyPreserved = 1\<rparr> = 10 \<and>
   totalElements \<lparr>totalElements = 0, essentialElements = 4, clarityScore = 1 / 2,
      anxietyInduced = 1\<rparr> = 0 \<and>
   calculateTES \<lparr>totalElements = 0, essentialElements = 4, clarityScore = 1 / 2,
      anxietyInduced = 1\<rparr> = 1"
  using calculators_zero_guard
    [of "\<lparr>valueOffered = 3, valueCaptured = 0, skillsTransferred = 7, autonomyPreserved = 1\<rparr>"
        "\<lparr>totalElements = 0, essentialElements = 4, clarityScore = 1 / 2, anxietyInduced = 1\<rparr>"]
  by simp

section \<open>Decision filter: the worst failure\<close>

lemma sort_by_Nil: "sort_by cmp [] = []"
  by (simp add: sort_by_def)

lemma sort_by_Cons: "sort_by cmp (x # xs) = insert_by cmp x (sort_by cmp xs)"
  by (simp add: sort_by_def)

lemma insert_by_not_Nil: "insert_by cmp x ys \<noteq> []"
  by (cases ys) auto

lemma sort_by_eq_Nil: "sort_by cmp xs = [] \<longleftrightarrow> xs = []"
  by (cases xs) (auto simp: sort_by_Cons sort_by_Nil insert_by_not_Nil)

text \<open>
  When the comparator orders the elements of the list by descending key, the head of the
  stably sorted list is the first element of the input whose key is maximal.
\<close>

lemma sort_by_desc_head:
  fixes key :: "'a \<Rightarrow> 'k::linorder"
  assumes "\<And>a b. a \<in> set xs \<Longrightarrow> b \<in> set xs \<Longrightarrow> cmp a b \<le> 0 \<longleftrightarrow> key b \<le> key a"
    and "sort_by cmp xs = w # rest"
  shows "\<exists>pre post. xs = pre @ w # post \<and> (\<forall>y\<in>set pre. key y < key w) \<and>
           (\<forall>y\<in>set post. key y \<le> key w)"
  using assms
proof (induction xs arbitrary: w rest)
  case Nil
  then show ?case by (simp add: sort_by_Nil)
next
  case (Cons x xs)
  have cmp: "\<And>a b. a \<in> set xs \<Longrightarrow> b \<in> set xs \<Longrightarrow> cmp a b \<le> 0 \<longleftrightarrow> key b \<le> key a"
    using Cons.prems(1) by simp
  show ?case
  proof (cases "sort_by cmp xs")
    case Nil
    then have "xs = []" by (simp add: sort_by_eq_Nil)
    with Cons.prems(2) have "w = x" by (simp add: sort_by_Cons sort_by_Nil)
    with \<open>xs = []\<close> show ?thesis by (intro exI[of _ "[]"]) simp
  next
    case (Cons v vs)
    from Cons.IH [OF cmp Cons] obtain pre post where
      xs: "xs = pre @ v # post" and pre: "\<forall>y\<in>set pre. key y < key v"
      and post: "\<forall>y\<in>set post. key y \<le> key v"
      by blast
    from xs have "v \<in> set xs" by simp
    then have xv: "cmp x v \<le> 0 \<longleftrightarrow> key v \<le> key x"
      using Cons.prems(1) [of x v] by simp
    show ?thesis
    proof (cases "key v \<le> key x")
      case True
      with Cons Cons.prems(2) xv have "w = x" by (simp add: sort_by_Cons)
      moreover have "\<forall>y\<in>set xs. key y \<le> key x"
        using xs pre post True by auto
      ultimately have "x # xs = [] @ w # xs \<and> (\<forall>y\<in>set []. key y < key w) \<and>
          (\<forall>y\<in>set xs. key y \<le> key w)"
        by simp
      then show ?thesis by blast
    next
      case False
      with Cons Cons.prems(2) xv have "w = v" by (simp add: sort_by_Cons)
      with xs pre post False
      have "x # xs = (x # pre) @ w # post \<and> (\<forall>y\<in>set (x # pre). key y < key w) \<and>
          (\<forall>y\<in>set post. key y \<le> key w)"
        by auto
      then show ?thesis by blast
    qed
  qed
qed

lemma number_rank_less:
  "a \<noteq> NaN \<Longrightarrow> b \<noteq> NaN \<Longrightarrow> number_rank a < number_rank b \<longleftrightarrow> a < b"
  by (cases a; cases b) simp_all

lemma number_rank_le:
  "a \<noteq> NaN \<Longrightarrow> b \<noteq> NaN \<Longrightarrow> number_rank a \<le> number_rank b \<longleftrightarrow> a \<le> b"
  by (cases a; cases b) (auto simp: number_le_iff)

lemma number_rank_eq:
  "number_rank a = number_rank b \<longleftrightarrow> a = b"
  by (cases a; cases b) simp_all

lemma sign_of_number_minus_le:
  assumes "on_double_grid a" "on_double_grid b" "a \<noteq> NaN" "b \<noteq> NaN"
  shows "sign_of (number_minus b a) \<le> 0 \<longleftrightarrow> number_rank b \<le> number_rank a"
proof -
  have "sign_of (number_minus b a) =
      (if number_rank b < number_rank a then - 1
       else if number_rank a < number_rank b then 1 else 0)"
    using assms by (simp add: sign_of_number_minus number_rank_less)
  then show ?thesis by auto
qed

lemma validateAURA_triple:
  "TES (validateAURA str now m t) = TES m"
  "VTR (validateAURA str now m t) = VTR m"
  "PAI (validateAURA str now m t) = PAI m"
  by (simp_all add: validateAURA_def Let_def)

lemma valid_iff_none_below:
  "valid (validateAURA str now m t) \<longleftrightarrow>
     filter (below m t) [Metric_TES, Metric_VTR, Metric_PAI] = []"
  by (simp add: validateAURA_def Let_def below_def)

lemma filterDecision_valid:
  "valid (validateAURA str now m t) \<Longrightarrow>
   filterDecision str now now' act m t =
     Inr \<lparr>action = act, metrics = validateAURA str now m t, passed = True, inversion = None\<rparr>"
  by (simp add: filterDecision_def Let_def)

lemma filterDecision_invalid:
  assumes "\<not> valid (validateAURA str now m t)"
  shows "filterDecision str now now' act m t =
     (case sort_by (\<lambda>a b. sign_of (number_minus (gap b) (gap a)))
             (map (\<lambda>k. \<lparr>fmetric = k, gap = gap_of m t k\<rparr>)
                (filter (below m t) [Metric_TES, Metric_VTR, Metric_PAI])) of
        [] \<Rightarrow> Inl TypeError
      | w # _ \<Rightarrow> Inr \<lparr>action = act, metrics = validateAURA str now m t, passed = False,
                       inversion = Some (vectorInversion str now' act (fmetric w) [])\<rparr>)"
  using assms
  by (simp add: filterDecision_def Let_def validateAURA_triple below_def gap_of_def)

lemma kinds_in_eval_order:
  "sorted_wrt (\<lambda>a b. eval_order a < eval_order b) (filter P [Metric_TES, Metric_VTR, Metric_PAI])"
  by simp

text \<open>The gap of a failing metric is a positive number, never \<open>NaN\<close>.\<close>

lemma below_gap:
  assumes "on_double_grid (metric_of k m)" "on_double_grid (metric_of k t)" "below m t k"
  shows "gap_of m t k \<noteq> NaN" "on_double_grid (gap_of m t k)"
proof -
  from assms(3) have lt: "metric_of k m < metric_of k t" by (simp add: below_def)
  then have "metric_of k m \<noteq> NaN" "metric_of k t \<noteq> NaN" by auto
  with assms(1,2) lt have "sign_of (gap_of m t k) = 1"
    by (simp add: gap_of_def sign_of_number_minus number_rank_less [symmetric])
  then show "gap_of m t k \<noteq> NaN" by auto
  show "on_double_grid (gap_of m t k)"
    by (simp add: gap_of_def on_double_grid_number_minus)
qed

lemma filterDecision_invalid_worst:
  assumes grid: "\<And>k. on_double_grid (metric_of k m) \<and> on_double_grid (metric_of k t)"
    and inv: "\<not> valid (validateAURA str now m t)"
  shows "\<exists>k. below m t k \<and> (\<forall>k'. below m t k' \<longrightarrow> gap_of m t k' \<le> gap_of m t k) \<and>
           (\<forall>k'. below m t k' \<and> gap_of m t k' = gap_of m t k \<longrightarrow> eval_order k \<le> eval_order k') \<and>
           filterDecision str now now' act m t =
             Inr \<lparr>action = act, metrics = validateAURA str now m t, passed = False,
                  inversion = Some (vectorInversion str now' act k [])\<rparr>"
proof -
  let ?ks = "filter (below m t) [Metric_TES, Metric_VTR, Metric_PAI]"
  let ?fs = "map (\<lambda>k. \<lparr>fmetric = k, gap = gap_of m t k\<rparr>) ?ks"
  let ?cmp = "\<lambda>a b. sign_of (number_minus (gap b) (gap a))"
  let ?g = "\<lambda>k. number_rank (gap_of m t k)"
  have ks_set: "set ?ks = {k. below m t k}"
    by (auto intro: MetricKind.exhaust) (metis MetricKind.exhaust)+
  have ok: "gap_of m t k \<noteq> NaN \<and> on_double_grid (gap_of m t k)" if "below m t k" for k
    using below_gap [of k m t] grid [of k] that by simp
  have fs_ok: "gap y \<noteq> NaN \<and> on_double_grid (gap y)" if "y \<in> set ?fs" for y
  proof -
    from that obtain k where "k \<in> set ?ks" "y = \<lparr>fmetric = k, gap = gap_of m t k\<rparr>"
      unfolding set_map by blast
    with ks_set ok [of k] show ?thesis by simp
  qed
  have cmp: "?cmp a b \<le> 0 \<longleftrightarrow> number_rank (gap b) \<le> number_rank (gap a)"
    if "a \<in> set ?fs" "b \<in> set ?fs" for a b
    using fs_ok [OF that(1)] fs_ok [OF that(2)] by (simp add: sign_of_number_minus_le)
  from inv have "?fs \<noteq> []" by (simp add: valid_iff_none_below)
  then obtain w rest where srt: "sort_by ?cmp ?fs = w # rest"
    by (cases "sort_by ?cmp ?fs") (auto simp: sort_by_eq_Nil)
  from sort_by_desc_head [of ?fs ?cmp "\<lambda>y. number_rank (gap y)", OF cmp srt]
  obtain pre post where
    fs: "?fs = pre @ w # post" and pre: "\<forall>y\<in>set pre. number_rank (gap y) < number_rank (gap w)"
    and post: "\<forall>y\<in>set post. number_rank (gap y) \<le> number_rank (gap w)" by blast
  from fs obtain kpre k kpost where
    ks: "?ks = kpre @ k # kpost"
    and kpre: "pre = map (\<lambda>k. \<lparr>fmetric = k, gap = gap_of m t k\<rparr>) kpre"
    and w: "w = \<lparr>fmetric = k, gap = gap_of m t k\<rparr>"
    and kpost: "post = map (\<lambda>k. \<lparr>fmetric = k, gap = gap_of m t k\<rparr>) kpost"
    by (auto simp: map_eq_append_conv map_eq_Cons_conv)
  have mem: "\<And>k'. below m t k' \<longleftrightarrow> k' \<in> set kpre \<or> k' = k \<or> k' \<in> set kpost"
    using ks_set ks
    by (metis (no_types, lifting) Un_iff mem_Collect_eq set_ConsD list.set_intros set_append)
  have lt: "\<And>k'. k' \<in> set kpre \<Longrightarrow> ?g k' < ?g k"
    using pre kpre w by simp
  have le: "\<And>k'. k' \<in> set kpost \<Longrightarrow> ?g k' \<le> ?g k"
    using post kpost w by simp
  have ord: "\<And>k'. k' \<in> set kpost \<Longrightarrow> eval_order k < eval_order k'"
    using kinds_in_eval_order [of "below m t"] unfolding ks
    by (simp add: sorted_wrt_append del: filter.simps)
  have 1: "below m t k" using mem by blast
  have "\<forall>k'. below m t k' \<longrightarrow> ?g k' \<le> ?g k"
    using mem lt le by (metis less_imp_le order_refl)
  then have 2: "\<forall>k'. below m t k' \<longrightarrow> gap_of m t k' \<le> gap_of m t k"
    using ok 1 by (simp add: number_rank_le)
  have 3: "\<forall>k'. below m t k' \<and> gap_of m t k' = gap_of m t k \<longrightarrow> eval_order k \<le> eval_order k'"
    using mem lt ord by (metis less_imp_le less_irrefl order_refl)
  have 4: "filterDecision str now now' act m t =
      Inr \<lparr>action = act, metrics = validateAURA str now m t, passed = False,
           inversion = Some (vectorInversion str now' act k [])\<rparr>"
    using filterDecision_invalid [OF inv, of now' act] srt w by (simp del: filter.simps)
  from 1 2 3 4 show ?thesis by blast
qed

text \<open>
  Without any assumption on the numbers, a failed validation still gives a result with an
  inversion of a failing metric: reading element 0 of \<open>failures\<close> never throws.
\<close>

lemma filterDecision_invalid_some:
  assumes inv: "\<not> valid (validateAURA str now m t)"
  shows "\<exists>k. below m t k \<and>
           filterDecision str now now' act m t =
             Inr \<lparr>action = act, metrics = validateAURA str now m t, passed = False,
                  inversion = Some (vectorInversion str now' act k [])\<rparr>"
proof -
  let ?ks = "filter (below m t) [Metric_TES, Metric_VTR, Metric_PAI]"
  let ?fs = "map (\<lambda>k. \<lparr>fmetric = k, gap = gap_of m t k\<rparr>) ?ks"
  let ?cmp = "\<lambda>a b. sign_of (number_minus (gap b) (gap a))"
  have set_insert_by: "set (insert_by cmp x ys) = insert x (set ys)"
    for cmp :: "Failure \<Rightarrow> Failure \<Rightarrow> int" and x ys
    by (induction ys) auto
  have set_sort: "set (sort_by cmp xs) = set xs"
    for cmp :: "Failure \<Rightarrow> Failure \<Rightarrow> int" and xs
    by (induction xs) (simp_all add: sort_by_Nil sort_by_Cons set_insert_by)
  from inv have "?fs \<noteq> []" by (simp add: valid_iff_none_below)
  then obtain w rest where srt: "sort_by ?cmp ?fs = w # rest"
    by (cases "sort_by ?cmp ?fs") (auto simp: sort_by_eq_Nil)
  then have "w \<in> set (sort_by ?cmp ?fs)" by simp
  then have "w \<in> set ?fs" unfolding set_sort .
  then obtain k where k: "k \<in> set ?ks" and w: "w = \<lparr>fmetric = k, gap = gap_of m t k\<rparr>"
    unfolding set_map by blast
  from k have "below m t k" by (simp del: filter.simps)
  moreover have "filterDecision str now now' act m t =
      Inr \<lparr>action = act, metrics = validateAURA str now m t, passed = False,
           inversion = Some (vectorInversion str now' act k [])\<rparr>"
    using filterDecision_invalid [OF inv, of now' act] srt w by (simp del: filter.simps)
  ultimately show ?thesis by blast
qed

lemma failedMetric_vectorInversion [simp]:
  "failedMetric (vectorInversion str now req k ctx) = k"
  by (cases k) (simp_all add: vectorInversion_def Let_def)

text \<open>
  C2. When validation fails, \<open>filterDecision\<close> returns (never throwing) \<open>passed = false\<close>
  with the inversion of a metric \<open>k\<close> that is below its threshold. For metrics and
  thresholds that are doubles (whole multiples of \<open>2\<close> to the power \<open>-1074\<close>, an infinity
  or \<open>NaN\<close>), the gap \<open>threshold - value\<close> of \<open>k\<close>, as the subtraction of doubles gives
  it, is the largest among the failing metrics, and \<open>k\<close> comes first in the order TES,
  VTR, PAI among the failing metrics with that gap. When validation succeeds the result
  is the action, the metrics and \<open>passed = true\<close> with no inversion.
\<close>

theorem filterDecision_worst_gap:
  "(\<not> valid (validateAURA str now m t) \<longrightarrow>
      (\<exists>k. below m t k \<and>
            filterDecision str now now' act m t =
              Inr \<lparr>action = act, metrics = validateAURA str now m t, passed = False,
                   inversion = Some (vectorInversion str now' act k [])\<rparr> \<and>
            ((\<forall>j. on_double_grid (metric_of j m) \<and> on_double_grid (metric_of j t)) \<longrightarrow>
               (\<forall>k'. below m t k' \<longrightarrow> gap_of m t k' \<le> gap_of m t k) \<and>
               (\<forall>k'. below m t k' \<and> gap_of m t k' = gap_of m t k \<longrightarrow>
                  eval_order k \<le> eval_order k')))) \<and>
   (valid (validateAURA str now m t) \<longrightarrow>
      filterDecision str now now' act m t =
        Inr \<lparr>action = act, metrics = validateAURA str now m t, passed = True,
             inversion = None\<rparr>)"
proof -
  have "\<exists>k. below m t k \<and>
            filterDecision str now now' act m t =
              Inr \<lparr>action = act, metrics = validateAURA str now m t, passed = False,
                   inversion = Some (vectorInversion str now' act k [])\<rparr> \<and>
            ((\<forall>j. on_double_grid (metric_of j m) \<and> on_double_grid (metric_of j t)) \<longrightarrow>
               (\<forall>k'. below m t k' \<longrightarrow> gap_of m t k' \<le> gap_of m t k) \<and>
               (\<forall>k'. below m t k' \<and> gap_of m t k' = gap_of m t k \<longrightarrow>
                  eval_order k \<le> eval_order k'))"
    if inv: "\<not> valid (validateAURA str now m t)"
  proof (cases "\<forall>j. on_double_grid (metric_of j m) \<and> on_double_grid (metric_of j t)")
    case True
    then have "\<And>j. on_double_grid (metric_of j m) \<and> on_double_grid (metric_of j t)"
      by blast
    from filterDecision_invalid_worst [OF this inv, of now' act] show ?thesis
      by blast
  next
    case False
    with filterDecision_invalid_some [OF inv, of now' act] show ?thesis
      by blast
  qed
  with filterDecision_valid [of str now m t now' act] show ?thesis by blast
qed

lemma double_grid_examples: "double_grid 0" "double_grid 1" "double_grid (1 / 2 ^ 60)"
proof -
  have "(1 / 2 ^ 60 :: real) * 2 ^ 1074 = of_int (2 ^ 1014)" by simp
  then show "double_grid (1 / 2 ^ 60)" unfolding double_grid_iff by blast
  have "(1 :: real) * 2 ^ 1074 = of_int (2 ^ 1074)" by simp
  then show "double_grid 1" unfolding double_grid_iff by blast
  show "double_grid 0" by (simp add: double_grid_def)
qed

theorem filterDecision_worst_gap_witness:
  "\<not> valid (validateAURA str0 0 \<lparr>TES = Finite (1 / 2 ^ 60), VTR = Finite 0, PAI = Finite 0\<rparr>
        \<lparr>TES = Finite 1, VTR = Finite 1, PAI = Finite 0\<rparr>) \<and>
   gap_of \<lparr>TES = Finite (1 / 2 ^ 60), VTR = Finite 0, PAI = Finite 0\<rparr>
     \<lparr>TES = Finite 1, VTR = Finite 1, PAI = Finite 0\<rparr> Metric_TES = Finite 1 \<and>
   gap_of \<lparr>TES = Finite (1 / 2 ^ 60), VTR = Finite 0, PAI = Finite 0\<rparr>
     \<lparr>TES = Finite 1, VTR = Finite 1, PAI = Finite 0\<rparr> Metric_VTR = Finite 1 \<and>
   filterDecision str0 0 1 ''go'' \<lparr>TES = Finite (1 / 2 ^ 60), VTR = Finite 0, PAI = Finite 0\<rparr>
       \<lparr>TES = Finite 1, VTR = Finite 1, PAI = Finite 0\<rparr> =
     Inr \<lparr>action = ''go'',
          metrics = validateAURA str0 0 \<lparr>TES = Finite (1 / 2 ^ 60), VTR = Finite 0, PAI = Finite 0\<rparr>
            \<lparr>TES = Finite 1, VTR = Finite 1, PAI = Finite 0\<rparr>,
          passed = False, inversion = Some (vectorInversion str0 1 ''go'' Metric_TES [])\<rparr> \<and>
   valid (validateAURA str0 0 \<lparr>TES = Finite 1, VTR = Finite 1, PAI = Finite 0\<rparr>
        \<lparr>TES = Finite 1, VTR = Finite 1, PAI = Finite 0\<rparr>) \<and>
   filterDecision str0 0 1 ''go'' \<lparr>TES = Finite 1, VTR = Finite 1, PAI = Finite 0\<rparr>
       \<lparr>TES = Finite 1, VTR = Finite 1, PAI = Finite 0\<rparr> =
     Inr \<lparr>action = ''go'',
          metrics = validateAURA str0 0 \<lparr>TES = Finite 1, VTR = Finite 1, PAI = Finite 0\<rparr>
            \<lparr>TES = Finite 1, VTR = Finite 1, PAI = Finite 0\<rparr>,
          passed = True, inversion = None\<rparr>"
proof -
  let ?m = "\<lparr>TES = Finite (1 / 2 ^ 60), VTR = Finite 0, PAI = Finite 0\<rparr>"
  let ?t = "\<lparr>TES = Finite 1, VTR = Finite 1, PAI = Finite 0\<rparr>"
  have bad: "\<not> valid (validateAURA str0 0 ?m ?t)"
    by (simp add: validateAURA_def Let_def)
  have good: "valid (validateAURA str0 0 ?t ?t)"
    by (simp add: validateAURA_def Let_def)
  have grid: "\<forall>j. on_double_grid (metric_of j ?m) \<and> on_double_grid (metric_of j ?t)"
  proof
    fix j
    show "on_double_grid (metric_of j ?m) \<and> on_double_grid (metric_of j ?t)"
      by (cases j) (simp_all add: double_grid_examples [simplified])
  qed
  have tes: "gap_of ?m ?t Metric_TES = Finite 1"
    by (simp add: gap_of_def to_double_literals)
  have vtr: "gap_of ?m ?t Metric_VTR = Finite 1"
    by (simp add: gap_of_def to_double_literals)
  have b: "below ?m ?t Metric_TES" "\<not> below ?m ?t Metric_PAI"
    by (simp_all add: below_def)
  from bad grid filterDecision_worst_gap [of str0 0 ?m ?t 1 "''go''"]
  obtain k where k: "below ?m ?t k"
    and first: "\<forall>k'. below ?m ?t k' \<and> gap_of ?m ?t k' = gap_of ?m ?t k \<longrightarrow>
        eval_order k \<le> eval_order k'"
    and eq: "filterDecision str0 0 1 ''go'' ?m ?t =
      Inr \<lparr>action = ''go'', metrics = validateAURA str0 0 ?m ?t, passed = False,
           inversion = Some (vectorInversion str0 1 ''go'' k [])\<rparr>"
    by blast
  from k b have "gap_of ?m ?t k = Finite 1"
    using tes vtr by (cases k) simp_all
  with first b(1) tes have "eval_order k \<le> eval_order Metric_TES" by metis
  then have "k = Metric_TES" by (cases k) simp_all
  with eq bad good tes vtr filterDecision_worst_gap [of str0 0 ?t ?t 1 "''go''"]
  show ?thesis by blast
qed

section \<open>Vector inversion: the simulated metrics\<close>

lemma vectorInversion_newMetrics:
  "newMetrics (vectorInversion str now req k ctx) =
     validateAURA str now
       \<lparr>TES = (if k = Metric_TES then to_double (85 / 100) else to_double (75 / 100)),
        VTR = (if k = Metric_VTR then to_double 2 else to_double (18 / 10)),
        PAI = (if k = Metric_PAI then to_double (90 / 100) else to_double (85 / 100))\<rparr>
       (AURA_PRESETS Moderate)"
  by (simp add: vectorInversion_def Let_def split: MetricKind.split)

lemma moderate_le_recovered:
  "to_double (70 / 100) \<le> to_double (75 / 100)"
  "to_double (70 / 100) \<le> to_double (85 / 100)"
  "to_double (15 / 10) \<le> to_double (18 / 10)"
  "to_double (15 / 10) \<le> to_double 2"
  "to_double (80 / 100) \<le> to_double (85 / 100)"
  "to_double (80 / 100) \<le> to_double (90 / 100)"
  by (simp_all add: number_le_iff to_double_literals)

lemma validateAURA_passing:
  assumes "TES t \<le> TES m" "VTR t \<le> VTR m" "PAI t \<le> PAI m"
  shows "validateAURA str now m t =
    \<lparr>TES = TES m, VTR = VTR m, PAI = PAI m, valid = True, warnings = [], timestamp = now\<rparr>"
  using assms by (simp add: validateAURA_def Let_def number_le_iff)

lemma vectorInversion_newMetrics_values:
  "newMetrics (vectorInversion str now req k ctx) =
     \<lparr>TES = (if k = Metric_TES then to_double (85 / 100) else to_double (75 / 100)),
      VTR = (if k = Metric_VTR then to_double 2 else to_double (18 / 10)),
      PAI = (if k = Metric_PAI then to_double (90 / 100) else to_double (85 / 100)),
      valid = True, warnings = [], timestamp = now\<rparr>"
  unfolding vectorInversion_newMetrics
  by (rule validateAURA_passing [THEN trans]) (simp_all add: number_le_iff to_double_literals)

lemma validateAURA_again:
  "valid (validateAURA str' now' (validateAURA str now m t) t) = valid (validateAURA str now m t)"
  by (simp add: validateAURA_def Let_def)

text \<open>
  C5. Feeding the TES, VTR and PAI values of the \<open>newMetrics\<close> made by \<open>vectorInversion\<close>
  back into \<open>validateAURA\<close> with the thresholds that produced it (the moderate preset)
  gives the \<open>valid\<close> flag of \<open>newMetrics\<close> again, at any later clock reading and with any
  number formatting: the flag depends on the metric values and the thresholds only.
\<close>

theorem vectorInversion_roundtrip:
  "valid (validateAURA str' now' (newMetrics (vectorInversion str now req k ctx))
            (AURA_PRESETS Moderate)) =
   valid (newMetrics (vectorInversion str now req k ctx))"
  unfolding vectorInversion_newMetrics by (rule validateAURA_again)

text \<open>
  C10. The \<open>newMetrics\<close> inside the result of \<open>vectorInversion\<close> are the recovered values
  (the failed metric at TES 0.85, VTR 2.0 or PAI 0.90, the other two at 0.75, 1.8 or 0.85)
  with \<open>valid\<close> true and no warnings; they are what \<open>validateAURA\<close> makes of those values
  against the moderate preset (TES 0.70, VTR 1.5, PAI 0.80), each of whose thresholds
  every recovered value of its metric meets; the doubles that the eight literals denote
  are given. The same holds of the inversion inside any result of \<open>filterDecision\<close>,
  whatever thresholds its caller passed.
\<close>

theorem vectorInversion_always_valid:
  "newMetrics (vectorInversion str now req k ctx) =
     \<lparr>TES = (if k = Metric_TES then to_double (85 / 100) else to_double (75 / 100)),
      VTR = (if k = Metric_VTR then to_double 2 else to_double (18 / 10)),
      PAI = (if k = Metric_PAI then to_double (90 / 100) else to_double (85 / 100)),
      valid = True, warnings = [], timestamp = now\<rparr> \<and>
   newMetrics (vectorInversion str now req k ctx) =
     validateAURA str now
       \<lparr>TES = (if k = Metric_TES then to_double (85 / 100) else to_double (75 / 100)),
        VTR = (if k = Metric_VTR then to_double 2 else to_double (18 / 10)),
        PAI = (if k = Metric_PAI then to_double (90 / 100) else to_double (85 / 100))\<rparr>
       (AURA_PRESETS Moderate) \<and>
   AURA_PRESETS Moderate =
     \<lparr>TES = to_double (70 / 100), VTR = to_double (15 / 10), PAI = to_double (80 / 100)\<rparr> \<and>
   to_double (70 / 100) \<le> to_double (75 / 100) \<and>
   to_double (70 / 100) \<le> to_double (85 / 100) \<and>
   to_double (15 / 10) \<le> to_double (18 / 10) \<and>
   to_double (15 / 10) \<le> to_double 2 \<and>
   to_double (80 / 100) \<le> to_double (85 / 100) \<and>
   to_double (80 / 100) \<le> to_double (90 / 100) \<and>
   to_double (85 / 100) = Finite (7656119366529843 / 2 ^ 53) \<and>
   to_double (75 / 100) = Finite (3 / 4) \<and>
   to_double 2 = Finite 2 \<and>
   to_double (18 / 10) = Finite (8106479329266893 / 2 ^ 52) \<and>
   to_double (90 / 100) = Finite (8106479329266893 / 2 ^ 53) \<and>
   to_double (70 / 100) = Finite (3152519739159347 / 2 ^ 52) \<and>
   to_double (15 / 10) = Finite (3 / 2) \<and>
   to_double (80 / 100) = Finite (3602879701896397 / 2 ^ 52) \<and>
   (\<forall>d v. filterDecision str now now' act m t = Inr d \<and> inversion d = Some v \<longrightarrow>
      newMetrics v =
        \<lparr>TES = (if failedMetric v = Metric_TES then to_double (85 / 100)
                else to_double (75 / 100)),
         VTR = (if failedMetric v = Metric_VTR then to_double 2 else to_double (18 / 10)),
         PAI = (if failedMetric v = Metric_PAI then to_double (90 / 100)
                else to_double (85 / 100)),
         valid = True, warnings = [], timestamp = now'\<rparr>)"
proof -
  have inv: "\<forall>d v. filterDecision str now now' act m t = Inr d \<and> inversion d = Some v \<longrightarrow>
      newMetrics v =
        \<lparr>TES = (if failedMetric v = Metric_TES then to_double (85 / 100)
                else to_double (75 / 100)),
         VTR = (if failedMetric v = Metric_VTR then to_double 2 else to_double (18 / 10)),
         PAI = (if failedMetric v = Metric_PAI then to_double (90 / 100)
                else to_double (85 / 100)),
         valid = True, warnings = [], timestamp = now'\<rparr>"
  proof (intro allI impI)
    fix d v
    assume a: "filterDecision str now now' act m t = Inr d \<and> inversion d = Some v"
    show "newMetrics v =
        \<lparr>TES = (if failedMetric v = Metric_TES then to_double (85 / 100)
                else to_double (75 / 100)),
         VTR = (if failedMetric v = Metric_VTR then to_double 2 else to_double (18 / 10)),
         PAI = (if failedMetric v = Metric_PAI then to_double (90 / 100)
                else to_double (85 / 100)),
         valid = True, warnings = [], timestamp = now'\<rparr>"
    proof (cases "valid (validateAURA str now m t)")
      case True
      with a filterDecision_valid [of str now m t now' act] show ?thesis by auto
    next
      case False
      from filterDecision_invalid_some [OF False, of now' act] a
      obtain k' where "v = vectorInversion str now' act k' []" by auto
      then show ?thesis
        by (simp only: vectorInversion_newMetrics_values failedMetric_vectorInversion)
    qed
  qed
  have preset: "AURA_PRESETS Moderate =
     \<lparr>TES = to_double (70 / 100), VTR = to_double (15 / 10), PAI = to_double (80 / 100)\<rparr>"
    by simp
  show ?thesis
    using inv preset vectorInversion_newMetrics_values [of str now req k ctx]
      vectorInversion_newMetrics [of str now req k ctx] moderate_le_recovered
      to_double_0_85 to_double_0_75 to_double_2 to_double_1_8 to_double_0_90
      to_double_0_70 to_double_1_5 to_double_0_80
    by - (intro conjI, assumption+)
qed

theorem vectorInversion_always_valid_witness:
  "filterDecision str0 0 1 ''go'' \<lparr>TES = Finite 1, VTR = Finite 1, PAI = Finite 1\<rparr>
       (AURA_PRESETS Conservative) =
     Inr \<lparr>action = ''go'',
          metrics = validateAURA str0 0 \<lparr>TES = Finite 1, VTR = Finite 1, PAI = Finite 1\<rparr>
            (AURA_PRESETS Conservative),
          passed = False, inversion = Some (vectorInversion str0 1 ''go'' Metric_VTR [])\<rparr> \<and>
   newMetrics (vectorInversion str0 1 ''go'' Metric_VTR []) =
     \<lparr>TES = to_double (75 / 100), VTR = to_double 2, PAI = to_double (85 / 100),
      valid = True, warnings = [], timestamp = 1\<rparr>"
proof -
  let ?m = "\<lparr>TES = Finite 1, VTR = Finite 1, PAI = Finite 1\<rparr>"
  let ?d = "\<lparr>action = ''go'', metrics = validateAURA str0 0 ?m (AURA_PRESETS Conservative),
            passed = False, inversion = Some (vectorInversion str0 1 ''go'' Metric_VTR [])\<rparr>"
  have eq: "filterDecision str0 0 1 ''go'' ?m (AURA_PRESETS Conservative) = Inr ?d"
    by (simp add: filterDecision_def validateAURA_def Let_def sort_by_def to_double_literals)
  have inv: "inversion ?d = Some (vectorInversion str0 1 ''go'' Metric_VTR [])"
    by simp
  from vectorInversion_always_valid
    [of str0 0 "''go''" Metric_TES "[]" 1 "''go''" ?m "AURA_PRESETS Conservative"] eq inv
  have "newMetrics (vectorInversion str0 1 ''go'' Metric_VTR []) =
     \<lparr>TES = (if failedMetric (vectorInversion str0 1 ''go'' Metric_VTR []) = Metric_TES
             then to_double (85 / 100) else to_double (75 / 100)),
      VTR = (if failedMetric (vectorInversion str0 1 ''go'' Metric_VTR []) = Metric_VTR
             then to_double 2 else to_double (18 / 10)),
      PAI = (if failedMetric (vectorInversion str0 1 ''go'' Metric_VTR []) = Metric_PAI
             then to_double (90 / 100) else to_double (85 / 100)),
      valid = True, warnings = [], timestamp = 1\<rparr>"
    by blast
  with eq show ?thesis by (simp only: failedMetric_vectorInversion) simp
qed

section \<open>Vector inversion: the extracted intent\<close>

lemma split_on_not_Nil: "split_on sep s \<noteq> []"
  by (induction s) (auto split: list.split)

lemma join_with_Cons_char:
  "join_with sep ((c # w) # ws) = c # join_with sep (w # ws)"
  by (cases ws) simp_all

lemma join_with_Nil_Cons:
  "ws \<noteq> [] \<Longrightarrow> join_with sep ([] # ws) = sep @ join_with sep ws"
  by (cases ws) simp_all

lemma join_split_on: "join_with [sep] (split_on sep s) = s"
proof (induction s)
  case Nil
  show ?case by simp
next
  case (Cons c cs)
  show ?case
  proof (cases "c = sep")
    case True
    with Cons show ?thesis by (simp add: join_with_Nil_Cons split_on_not_Nil)
  next
    case False
    obtain w ws where "split_on sep cs = w # ws"
      using split_on_not_Nil [of sep cs] by (cases "split_on sep cs") auto
    with False Cons show ?thesis by (simp add: join_with_Cons_char)
  qed
qed

lemma length_split_on: "length (split_on sep s) = count_list s sep + 1"
  by (induction s) (auto split: list.split simp: split_on_not_Nil)

lemma concat_split_on: "concat (split_on sep s) = filter (\<lambda>c. c \<noteq> sep) s"
  by (induction s) (auto split: list.split)

text \<open>
  C9, as stated: the intent is the first ten whitespace-separated tokens, with the
  ellipsis exactly when there were more than ten. It fails on eleven words separated by
  tabs, which come back unchanged and without ellipsis, and on six words separated by
  double spaces, which are cut after the fifth and given the ellipsis.
\<close>

theorem extractIntent_whitespace_counterexample:
  "length (spec_tokens [CHR ''a'', CHR 0x09, CHR ''b'', CHR 0x09, CHR ''c'', CHR 0x09, CHR ''d'',
      CHR 0x09, CHR ''e'', CHR 0x09, CHR ''f'', CHR 0x09, CHR ''g'', CHR 0x09, CHR ''h'', CHR 0x09,
      CHR ''i'', CHR 0x09, CHR ''j'', CHR 0x09, CHR ''k'']) = 11 \<and>
   originalIntent (vectorInversion str0 0 [CHR ''a'', CHR 0x09, CHR ''b'', CHR 0x09, CHR ''c'',
      CHR 0x09, CHR ''d'', CHR 0x09, CHR ''e'', CHR 0x09, CHR ''f'', CHR 0x09, CHR ''g'', CHR 0x09,
      CHR ''h'', CHR 0x09, CHR ''i'', CHR 0x09, CHR ''j'', CHR 0x09, CHR ''k''] Metric_TES []) =
     [CHR ''a'', CHR 0x09, CHR ''b'', CHR 0x09, CHR ''c'', CHR 0x09, CHR ''d'',
      CHR 0x09, CHR ''e'', CHR 0x09, CHR ''f'', CHR 0x09, CHR ''g'', CHR 0x09, CHR ''h'', CHR 0x09,
      CHR ''i'', CHR 0x09, CHR ''j'', CHR 0x09, CHR ''k''] \<and>
   spec_intent [CHR ''a'', CHR 0x09, CHR ''b'', CHR 0x09, CHR ''c'', CHR 0x09, CHR ''d'',
      CHR 0x09, CHR ''e'', CHR 0x09, CHR ''f'', CHR 0x09, CHR ''g'', CHR 0x09, CHR ''h'', CHR 0x09,
      CHR ''i'', CHR 0x09, CHR ''j'', CHR 0x09, CHR ''k''] = ''a b c d e f g h i j...'' \<and>
   length (spec_tokens ''a  b  c  d  e  f'') = 6 \<and>
   originalIntent (vectorInversion str0 0 ''a  b  c  d  e  f'' Metric_TES []) =
     ''a  b  c  d  e ...'' \<and>
   spec_intent ''a  b  c  d  e  f'' = ''a b c d e f''"
  by (simp add: vectorInversion_def extractIntent_def spec_intent_def spec_tokens_def
      is_whitespace_def Let_def)

text \<open>
  C9, amended: the intent is made of the pieces of \<open>failedRequest\<close> cut at every single
  space character (the pieces hold no space, joined by single spaces they give the request
  back, and there is one more piece than there are spaces): it is the first ten pieces
  joined by single spaces, followed by the ellipsis exactly when there are more than ten
  pieces, that is at least ten spaces.
\<close>

theorem extractIntent_single_spaces:
  "originalIntent (vectorInversion str now request k ctx) = extractIntent request \<and>
   extractIntent request =
     join_with '' '' (take 10 (split_on CHR '' '' request)) @
     (if 10 \<le> count_list request CHR '' '' then ''...'' else []) \<and>
   join_with '' '' (split_on CHR '' '' request) = request \<and>
   CHR '' '' \<notin> set (concat (split_on CHR '' '' request)) \<and>
   length (split_on CHR '' '' request) = count_list request CHR '' '' + 1"
  by (cases k)
    (simp_all add: vectorInversion_def extractIntent_def Let_def join_split_on
      length_split_on concat_split_on)

section \<open>Dates: results\<close>

subsection \<open>The calendar\<close>

lemma DayFromYear_mono: "y \<le> y' \<Longrightarrow> DayFromYear y \<le> DayFromYear y'"
proof (induction y' rule: int_ge_induct)
  case base
  show ?case by simp
next
  case (step i)
  then show ?case using DayFromYear_Suc [of i] DaysInYear_pos [of i] by simp
qed

lemma DayFromYear_strict: "y < y' \<Longrightarrow> DayFromYear y < DayFromYear y'"
  using DayFromYear_mono [of "y + 1" y'] DayFromYear_Suc [of y] DaysInYear_pos [of y] by simp

lemma year_down_le: "DayFromYear (year_down d y) \<le> d"
proof (induction d y rule: year_down.induct)
  case (1 d y)
  show ?case
  proof (cases "d < DayFromYear y")
    case True
    with 1 show ?thesis by (subst year_down.simps) simp
  next
    case False
    then show ?thesis by (subst year_down.simps) simp
  qed
qed

lemma year_up_bounds:
  "DayFromYear y \<le> d \<Longrightarrow>
   DayFromYear (year_up d y) \<le> d \<and> d < DayFromYear (year_up d y + 1)"
proof (induction d y rule: year_up.induct)
  case (1 d y)
  show ?case
  proof (cases "DayFromYear (y + 1) \<le> d")
    case True
    with 1 show ?thesis by (subst (1 2) year_up.simps) simp
  next
    case False
    with 1 show ?thesis by (subst (1 2) year_up.simps) simp
  qed
qed

lemma YearFromDay_bounds:
  "DayFromYear (YearFromDay d) \<le> d" "d < DayFromYear (YearFromDay d + 1)"
  using year_up_bounds [OF year_down_le, of d "1970 + d div 365"]
  by (simp_all add: YearFromDay_def)

lemma YearFromDay_unique:
  assumes "DayFromYear y \<le> d" "d < DayFromYear (y + 1)"
  shows "YearFromDay d = y"
proof (rule ccontr)
  assume ne: "YearFromDay d \<noteq> y"
  show False
  proof (cases "YearFromDay d < y")
    case True
    then have "DayFromYear (YearFromDay d + 1) \<le> DayFromYear y"
      by (intro DayFromYear_mono) simp
    with YearFromDay_bounds(2) [of d] assms show False by simp
  next
    case False
    with ne have "DayFromYear (y + 1) \<le> DayFromYear (YearFromDay d)"
      by (intro DayFromYear_mono) simp
    with YearFromDay_bounds(1) [of d] assms show False by simp
  qed
qed

lemma YearFromDay_mono: "d \<le> d' \<Longrightarrow> YearFromDay d \<le> YearFromDay d'"
proof (rule ccontr)
  assume le: "d \<le> d'" and "\<not> YearFromDay d \<le> YearFromDay d'"
  then have "DayFromYear (YearFromDay d' + 1) \<le> DayFromYear (YearFromDay d)"
    by (intro DayFromYear_mono) simp
  with YearFromDay_bounds(1) [of d] YearFromDay_bounds(2) [of d'] le show False by simp
qed

lemma DayWithinYear_bounds:
  "0 \<le> DayWithinYear t" "DayWithinYear t < DaysInYear (YearFromTime t)"
  using YearFromDay_bounds [of "Day t"] DayFromYear_Suc [of "YearFromDay (Day t)"]
  by (simp_all add: DayWithinYear_def YearFromTime_def)

lemma InLeapYear_01: "InLeapYear t = 0 \<or> InLeapYear t = 1"
  by (simp add: InLeapYear_def)

lemma DayWithinYear_lt: "DayWithinYear t < 365 + InLeapYear t"
  using DayWithinYear_bounds(2) [of t] by (auto simp: InLeapYear_def DaysInYear_def split: if_splits)

lemma MonthFromTime_range: "0 \<le> MonthFromTime t" "MonthFromTime t \<le> 11"
  by (simp_all add: MonthFromTime_def Let_def)

lemma month_date: "month_start (MonthFromTime t) (InLeapYear t) + DateFromTime t - 1 = DayWithinYear t"
  by (simp add: month_start_def MonthFromTime_def DateFromTime_def Let_def)

lemma DateFromTime_range: "1 \<le> DateFromTime t" "DateFromTime t \<le> 31"
  using DayWithinYear_bounds(1) [of t] DayWithinYear_lt [of t] InLeapYear_01 [of t]
  by (auto simp: MonthFromTime_def DateFromTime_def Let_def)

lemma MakeDay_fields:
  "MakeDay (YearFromTime t) (MonthFromTime t) dt = Day t - DateFromTime t + dt"
proof -
  have m: "MonthFromTime t div 12 = 0" "MonthFromTime t mod 12 = MonthFromTime t"
    using MonthFromTime_range [of t] by simp_all
  have "(if DaysInYear (YearFromTime t) = 366 then 1 else 0) = InLeapYear t"
    by (simp add: InLeapYear_def)
  then show ?thesis
    using month_date [of t] by (simp add: MakeDay_def m Let_def DayWithinYear_def)
qed


subsection \<open>Digit strings\<close>

lemma of_char_digit_char: "0 \<le> v \<Longrightarrow> v \<le> 9 \<Longrightarrow> of_char (digit_char v) = 48 + v"
  by (simp add: digit_char_def)

lemma digit_val_digit_char: "0 \<le> v \<Longrightarrow> v \<le> 9 \<Longrightarrow> digit_val (digit_char v) = Some v"
  by (simp add: digit_val_def of_char_digit_char Let_def)

lemma parse_digits_snoc: "parse_digits (cs @ [c]) = parse_step c (parse_digits cs)"
  by (simp add: parse_digits_def)

lemma parse_digits_digits: "0 \<le> n \<Longrightarrow> n < 10 ^ k \<Longrightarrow> parse_digits (digits k n) = Some n"
proof (induction k arbitrary: n)
  case 0
  then show ?case by (simp add: parse_digits_def)
next
  case (Suc k)
  have "0 \<le> n div 10" "n div 10 < 10 ^ k" using Suc.prems by simp_all
  then have "parse_digits (digits k (n div 10)) = Some (n div 10)" by (rule Suc.IH)
  moreover have "digit_val (digit_char (n mod 10)) = Some (n mod 10)"
    by (rule digit_val_digit_char) simp_all
  ultimately show ?case by (simp add: parse_digits_snoc parse_step_def)
qed

lemma length_digits: "length (digits k n) = k"
  by (induction k arbitrary: n) simp_all

lemma digits_are_digits: "c \<in> set (digits k n) \<Longrightarrow> 48 \<le> (of_char c :: int) \<and> (of_char c :: int) \<le> 57"
proof (induction k arbitrary: n)
  case 0
  then show ?case by simp
next
  case (Suc k)
  have "of_char (digit_char (n mod 10)) = 48 + n mod 10"
    by (rule of_char_digit_char) simp_all
  with Suc show ?case by auto
qed

lemma digits_no_T: "CHR ''T'' \<notin> set (digits k n)"
  using digits_are_digits [of "CHR ''T''" k n] by auto

lemma digits_2: "digits 2 n = [digit_char (n div 10 mod 10), digit_char (n mod 10)]"
  by (simp add: eval_nat_numeral)

subsection \<open>Day keys\<close>

text \<open>
  The key of the day number \<open>d\<close>, and the day numbers of the time values:
  from \<open>-100000000\<close> to \<open>100000000\<close>.
\<close>

definition day_key :: "int \<Rightarrow> string" where
  "day_key d = date_string (d * msPerDay)"

definition valid_day :: "int \<Rightarrow> bool" where
  "valid_day d \<longleftrightarrow> - 100000000 \<le> d \<and> d \<le> 100000000"

lemma Day_of_day [simp]: "Day (d * msPerDay) = d"
  by (simp add: Day_def msPerDay_def)

lemma Day_shift: "Day (t - msPerDay) = Day t - 1"
proof -
  have "(t + (- 1) * 86400000) div 86400000 = (- 1) + t div (86400000 :: int)"
    by (rule div_mult_self1) simp
  then show ?thesis by (simp add: Day_def msPerDay_def)
qed

lemma fields_of_Day:
  "Day t = Day t' \<Longrightarrow> YearFromTime t = YearFromTime t'"
  "Day t = Day t' \<Longrightarrow> MonthFromTime t = MonthFromTime t'"
  "Day t = Day t' \<Longrightarrow> DateFromTime t = DateFromTime t'"
  by (simp_all add: YearFromTime_def MonthFromTime_def DateFromTime_def DayWithinYear_def
      InLeapYear_def)

lemma date_string_Day: "date_string t = day_key (Day t)"
  using fields_of_Day [of t "Day t * msPerDay"] by (simp add: date_string_def day_key_def)

lemma valid_time_day: "\<bar>t\<bar> \<le> 8640000000000000 \<Longrightarrow> valid_day (Day t)"
  unfolding valid_day_def Day_def msPerDay_def by linarith

lemma valid_day_time: "valid_day d \<Longrightarrow> \<bar>d * msPerDay\<bar> \<le> 8640000000000000"
  unfolding valid_day_def msPerDay_def by linarith

lemma split_on_first:
  "sep \<notin> set xs \<Longrightarrow> split_on sep (xs @ sep # ys) = xs # split_on sep ys"
  by (induction xs) (auto split: list.split)

lemma year_string_no_T: "CHR ''T'' \<notin> set (year_string y)"
  by (simp add: year_string_def digits_no_T)

lemma date_string_no_T: "CHR ''T'' \<notin> set (date_string t)"
  by (simp add: date_string_def year_string_no_T digits_no_T)

lemma getDateKey_Some:
  "getDateKey (Some t) =
     (if \<bar>t\<bar> \<le> 8640000000000000 then Inr (day_key (Day t)) else Inl RangeError)"
  using split_on_first [OF date_string_no_T, of t "time_string t"]
  by (simp add: getDateKey_def new_Date_def TimeClip_def toISOString_def date_string_Day)

lemma getDateKey_None: "getDateKey None = Inl RangeError"
  by (simp add: getDateKey_def new_Date_def toISOString_def)

lemma year_range:
  assumes "valid_day d"
  shows "- 1000000 < YearFromDay d" "YearFromDay d < 1000000"
proof -
  have hi: "DayFromYear 1000000 = 364522972" and lo: "DayFromYear (- 999999) = - 365961662"
    by (simp_all add: DayFromYear_def)
  show "YearFromDay d < 1000000"
  proof (rule ccontr)
    assume "\<not> YearFromDay d < 1000000"
    then have "DayFromYear 1000000 \<le> DayFromYear (YearFromDay d)"
      by (intro DayFromYear_mono) simp
    with YearFromDay_bounds(1) [of d] hi assms show False by (simp add: valid_day_def)
  qed
  show "- 1000000 < YearFromDay d"
  proof (rule ccontr)
    assume "\<not> - 1000000 < YearFromDay d"
    then have "DayFromYear (YearFromDay d + 1) \<le> DayFromYear (- 999999)"
      by (intro DayFromYear_mono) simp
    with YearFromDay_bounds(2) [of d] lo assms show False by (simp add: valid_day_def)
  qed
qed

lemma two_digits:
  assumes "0 \<le> n" "n < 100"
  obtains a b where "digits 2 n = [a, b]" "parse_digits [a, b] = Some n"
  using parse_digits_digits [of n 2] assms digits_2 [of n] by simp

lemma parse_ymd_fields:
  assumes "parse_digits ys = Some y'" "\<not> (sg < 0 \<and> y' = 0)" "sg * y' = YearFromTime t"
  shows "parse_ymd sg ys
           (''-'' @ digits 2 (MonthFromTime t + 1) @ ''-'' @ digits 2 (DateFromTime t)) =
         TimeClip (Day t * msPerDay)"
proof -
  have m: "1 \<le> MonthFromTime t + 1" "MonthFromTime t + 1 \<le> 12"
    using MonthFromTime_range [of t] by simp_all
  have d: "1 \<le> DateFromTime t" "DateFromTime t \<le> 31"
    using DateFromTime_range [of t] by simp_all
  obtain m1 m2 where m12: "digits 2 (MonthFromTime t + 1) = [m1, m2]"
    "parse_digits [m1, m2] = Some (MonthFromTime t + 1)"
    using two_digits [of "MonthFromTime t + 1"] m by auto
  obtain d1 d2 where d12: "digits 2 (DateFromTime t) = [d1, d2]"
    "parse_digits [d1, d2] = Some (DateFromTime t)"
    using two_digits [of "DateFromTime t"] d by auto
  have "MakeDate (MakeDay (YearFromTime t) (MonthFromTime t) (DateFromTime t)) 0 =
      Day t * msPerDay"
    by (simp add: MakeDay_fields MakeDate_def)
  then show ?thesis
    using assms m d by (simp add: parse_ymd_def m12 d12)
qed

lemma Date_parse_date_string:
  assumes "valid_day (Day t)"
  shows "Date_parse (date_string t) = Some (Day t * msPerDay)"
proof -
  let ?y = "YearFromTime t"
  let ?rest = "''-'' @ digits 2 (MonthFromTime t + 1) @ ''-'' @ digits 2 (DateFromTime t)"
  have len: "length ?rest = 6" by (simp add: length_digits)
  have clip: "TimeClip (Day t * msPerDay) = Some (Day t * msPerDay)"
    using valid_day_time [OF assms] by (simp add: TimeClip_def)
  have yr: "- 1000000 < ?y" "?y < 1000000"
    using year_range [OF assms] by (simp_all add: YearFromTime_def)
  consider (four) "0 \<le> ?y" "?y \<le> 9999" | (plus) "9999 < ?y" | (minus) "?y < 0"
    by linarith
  then show ?thesis
  proof cases
    case four
    then have s: "date_string t = digits 4 ?y @ ?rest"
      by (simp add: date_string_def year_string_def)
    have "parse_digits (digits 4 ?y) = Some ?y"
      using four by (intro parse_digits_digits) simp_all
    then have "parse_ymd 1 (digits 4 ?y) ?rest = TimeClip (Day t * msPerDay)"
      by (intro parse_ymd_fields) simp_all
    then show ?thesis
      unfolding s Date_parse_def using len clip by (simp add: length_digits)
  next
    case plus
    then have s: "date_string t = ''+'' @ digits 6 ?y @ ?rest"
      by (simp add: date_string_def year_string_def)
    have "parse_digits (digits 6 ?y) = Some ?y"
      using plus yr by (intro parse_digits_digits) simp_all
    then have "parse_ymd 1 (digits 6 ?y) ?rest = TimeClip (Day t * msPerDay)"
      by (intro parse_ymd_fields) simp_all
    then show ?thesis
      unfolding s Date_parse_def using len clip by (simp add: length_digits)
  next
    case minus
    then have s: "date_string t = ''-'' @ digits 6 (- ?y) @ ?rest"
      by (simp add: date_string_def year_string_def)
    have "parse_digits (digits 6 (- ?y)) = Some (- ?y)"
      using minus yr by (intro parse_digits_digits) simp_all
    moreover have "\<not> (- 1 < (0::int) \<and> - ?y = 0)" "- 1 * (- ?y) = ?y"
      using minus by simp_all
    ultimately have "parse_ymd (- 1) (digits 6 (- ?y)) ?rest = TimeClip (Day t * msPerDay)"
      by (rule parse_ymd_fields)
    then show ?thesis
      unfolding s Date_parse_def using len clip by (simp add: length_digits)
  qed
qed

lemma Date_parse_day_key: "valid_day d \<Longrightarrow> Date_parse (day_key d) = Some (d * msPerDay)"
  using Date_parse_date_string [of "d * msPerDay"] by (simp add: day_key_def)

lemma day_key_inj:
  assumes "valid_day d" "valid_day d'"
  shows "day_key d = day_key d' \<longleftrightarrow> d = d'"
proof
  assume eq: "day_key d = day_key d'"
  have "Some (d * msPerDay) = Date_parse (day_key d)"
    by (simp only: Date_parse_day_key [OF assms(1)])
  also have "\<dots> = Date_parse (day_key d')"
    by (simp only: eq)
  also have "\<dots> = Some (d' * msPerDay)"
    by (simp only: Date_parse_day_key [OF assms(2)])
  finally have "d * 86400000 = d' * (86400000 :: int)"
    by (simp only: msPerDay_def option.inject)
  then show "d = d'" by simp
qed simp

lemma getDaysBetween_keys:
  assumes "valid_day a" "valid_day b"
  shows "getDaysBetween (Date_parse (day_key a)) (Date_parse (day_key b)) = Some (b - a)"
proof -
  have "b * 86400000 - a * 86400000 = (b - a) * (86400000 :: int)"
    by (simp add: left_diff_distrib)
  then have "(b * 86400000 - a * 86400000) div 86400000 = b - a"
    by simp
  then show ?thesis
    using assms by (simp add: Date_parse_day_key getDaysBetween_def msPerDay_def)
qed

subsection \<open>The previous day\<close>

lemma setDate_previous:
  "setDate (constant_offset off) (Some t0) (map_option (\<lambda>n. n - 1) (getDate (constant_offset off) (Some t0))) =
     TimeClip (t0 - msPerDay)"
proof -
  let ?t = "LocalTime (constant_offset off) t0"
  have "MakeDate (MakeDay (YearFromTime ?t) (MonthFromTime ?t) (DateFromTime ?t - 1))
          (TimeWithinDay ?t) = (Day ?t - 1) * msPerDay + ?t mod msPerDay"
    by (simp add: MakeDay_fields MakeDate_def TimeWithinDay_def)
  also have "\<dots> = (?t div msPerDay) * msPerDay + ?t mod msPerDay - msPerDay"
    by (simp add: Day_def left_diff_distrib)
  also have "\<dots> = ?t - msPerDay"
    by simp
  finally show ?thesis
    by (simp add: setDate_def getDate_def Let_def UTC_def LocalTime_def constant_offset_def)
qed

lemma previous_day_key:
  assumes "valid_day d"
  shows "previous_day (constant_offset off) (day_key d) =
     (if - 100000000 < d then Inr (day_key (d - 1)) else Inl RangeError)"
proof -
  have prev: "previous_day (constant_offset off) (day_key d) = getDateKey (TimeClip (d * msPerDay - msPerDay))"
    by (simp add: previous_day_def Date_parse_day_key [OF assms] setDate_previous Let_def)
  have eq: "d * msPerDay - msPerDay = (d - 1) * msPerDay"
    by (simp add: left_diff_distrib)
  show ?thesis
  proof (cases "- 100000000 < d")
    case True
    with assms have "valid_day (d - 1)" by (simp add: valid_day_def)
    then have "\<bar>(d - 1) * msPerDay\<bar> \<le> 8640000000000000" by (rule valid_day_time)
    then show ?thesis
      using True unfolding prev eq by (simp add: TimeClip_def getDateKey_Some)
  next
    case False
    with assms have "d = - 100000000" by (simp add: valid_day_def)
    then show ?thesis
      unfolding prev by (simp add: TimeClip_def msPerDay_def getDateKey_None)
  qed
qed

section \<open>Streaks: results\<close>

subsection \<open>The loops on day numbers\<close>

text \<open>
  The two loops of \<open>calculateStreak\<close> read off the day numbers behind the keys:
  \<open>walk\<close> counts the days of the list that continue the run \<open>c, c - 1, \<dots>\<close>, and
  \<open>runs\<close> scans runs of consecutive days.
\<close>

fun walk :: "int list \<Rightarrow> int \<Rightarrow> nat" where
  "walk [] c = 0"
| "walk (d # ds) c = (if d = c then Suc (walk ds (c - 1)) else 0)"

fun runs :: "int list \<Rightarrow> int \<Rightarrow> int \<Rightarrow> int \<times> int" where
  "runs (a # b # rest) lng tmp =
     (if b - a = 1 then runs (b # rest) lng (tmp + 1) else runs (b # rest) (max lng tmp) 1)"
| "runs _ lng tmp = (lng, tmp)"

lemma current_loop_walk:
  assumes "\<forall>d\<in>set ds. valid_day d \<and> - 100000000 < d" "valid_day c"
  shows "current_loop (constant_offset off) (map day_key ds) (day_key c) n = Inr (n + int (walk ds c))"
  using assms
proof (induction ds arbitrary: c n)
  case Nil
  show ?case by simp
next
  case (Cons d ds)
  show ?case
  proof (cases "d = c")
    case True
    with Cons.prems have c: "valid_day c" "- 100000000 < c" by simp_all
    then have "valid_day (c - 1)" by (simp add: valid_day_def)
    with Cons have "current_loop (constant_offset off) (map day_key ds) (day_key (c - 1)) (n + 1) =
        Inr (n + 1 + int (walk ds (c - 1)))" by simp
    with True c show ?thesis by (simp add: previous_day_key)
  next
    case False
    with Cons.prems have "day_key d \<noteq> day_key c" by (simp add: day_key_inj)
    with False show ?thesis by simp
  qed
qed

lemma current_loop_Inr:
  assumes "\<forall>d\<in>set ds. valid_day d" "valid_day c"
    and "current_loop (constant_offset off) (map day_key ds) (day_key c) n = Inr m"
  shows "m = n + int (walk ds c)"
  using assms
proof (induction ds arbitrary: c n)
  case Nil
  then show ?case by simp
next
  case (Cons d ds)
  show ?case
  proof (cases "d = c")
    case True
    from Cons.prems True have lo: "- 100000000 < c"
      by (auto simp: previous_day_key split: if_splits)
    with Cons.prems have "valid_day (c - 1)" by (simp add: valid_day_def)
    moreover from Cons.prems True lo
    have "current_loop (constant_offset off) (map day_key ds) (day_key (c - 1)) (n + 1) = Inr m"
      by (simp add: previous_day_key)
    ultimately have "m = n + 1 + int (walk ds (c - 1))"
      using Cons.IH Cons.prems(1) by simp
    with True show ?thesis by simp
  next
    case False
    with Cons.prems have "day_key d \<noteq> day_key c" by (simp add: day_key_inj)
    with False Cons.prems show ?thesis by simp
  qed
qed

lemma longest_loop_runs:
  "\<forall>d\<in>set ds. valid_day d \<Longrightarrow> longest_loop (map day_key ds) l t = runs ds l t"
proof (induction ds l t rule: runs.induct)
  case (1 a b rest lng tmp)
  then show ?case by (simp add: getDaysBetween_keys Let_def)
qed simp_all

lemma runs_tmp_pos: "1 \<le> t \<Longrightarrow> 1 \<le> snd (runs xs l t)"
  by (induction xs l t rule: runs.induct) simp_all

lemma runs_snoc:
  "runs (xs @ [a, b]) l t =
     (let (l1, t1) = runs (xs @ [a]) l t
      in if b - a = 1 then (l1, t1 + 1) else (max l1 t1, 1))"
  by (induction xs arbitrary: l t rule: induct_list012) simp_all

text \<open>
  The days counted by \<open>walk\<close> form the last run scanned by \<open>runs\<close> on the reversed list.
\<close>

lemma walk_le_runs:
  "1 \<le> t \<Longrightarrow> int (walk ds c) \<le> snd (runs (rev ds) l t)"
proof (induction ds arbitrary: c)
  case Nil
  then show ?case by simp
next
  case (Cons d ds)
  show ?case
  proof (cases "d = c")
    case False
    then show ?thesis using runs_tmp_pos [OF Cons.prems, of "rev (d # ds)" l] by simp
  next
    case True
    show ?thesis
    proof (cases ds)
      case Nil
      with True Cons.prems show ?thesis by simp
    next
      case (Cons d' ds')
      obtain l1 t1 where r: "runs (rev ds' @ [d']) l t = (l1, t1)"
        by (cases "runs (rev ds' @ [d']) l t")
      have t1: "1 \<le> t1" using runs_tmp_pos [OF Cons.prems, of "rev ds' @ [d']" l] r by simp
      have rv: "runs (rev (d # ds)) l t = (if c - d' = 1 then (l1, t1 + 1) else (max l1 t1, 1))"
        using runs_snoc [of "rev ds'" d' c l t] r True Cons by simp
      show ?thesis
      proof (cases "d' = c - 1")
        case eq: True
        have "int (walk ds (c - 1)) \<le> snd (runs (rev ds) l t)"
          using Cons.IH [OF Cons.prems] .
        with r Cons have "int (walk ds (c - 1)) \<le> t1" by simp
        with True eq rv show ?thesis by simp
      next
        case False
        with Cons have "walk ds (c - 1) = 0" by simp
        with True rv t1 show ?thesis by simp
      qed
    qed
  qed
qed

subsection \<open>Arrays and sets\<close>

lemma insert_by_map:
  "insert_by cmp (f x) (map f ys) = map f (insert_by (\<lambda>a b. cmp (f a) (f b)) x ys)"
  by (induction ys) simp_all

lemma sort_by_map:
  "sort_by cmp (map f xs) = map f (sort_by (\<lambda>a b. cmp (f a) (f b)) xs)"
  by (induction xs) (simp_all add: sort_by_Nil sort_by_Cons insert_by_map)

lemma set_insert_by: "set (insert_by cmp x ys) = insert x (set ys)"
  by (induction ys) auto

lemma set_sort_by: "set (sort_by cmp xs) = set xs"
  by (induction xs) (simp_all add: sort_by_Nil sort_by_Cons set_insert_by)

lemma length_insert_by: "length (insert_by cmp x ys) = Suc (length ys)"
  by (induction ys) auto

lemma length_sort_by: "length (sort_by cmp xs) = length xs"
  by (induction xs) (simp_all add: sort_by_Nil sort_by_Cons length_insert_by)

lemma insert_by_default: "insert_by default_compare x ys = insort x ys"
  by (induction ys) (auto simp: default_compare_def)

lemma sort_by_default: "sort_by default_compare xs = sort xs"
  by (induction xs) (simp_all add: sort_by_Nil sort_by_Cons insert_by_default)

lemma foldl_Set_add:
  "distinct acc \<Longrightarrow>
   set (foldl Set_add acc xs) = set acc \<union> set xs \<and> distinct (foldl Set_add acc xs)"
  by (induction xs arbitrary: acc) (auto simp: Set_add_def)

lemma new_Set_set: "set (new_Set xs) = set xs" and new_Set_distinct: "distinct (new_Set xs)"
  using foldl_Set_add [of "[]" xs] by (simp_all add: new_Set_def)

lemma foldl_Set_add_map:
  "inj_on f (set acc \<union> set xs) \<Longrightarrow>
   foldl Set_add (map f acc) (map f xs) = map f (foldl Set_add acc xs)"
proof (induction xs arbitrary: acc)
  case Nil
  show ?case by simp
next
  case (Cons x xs)
  have "f x \<in> f ` set acc \<longleftrightarrow> x \<in> set acc"
    using Cons.prems by (auto simp: inj_on_def)
  then have "Set_add (map f acc) (f x) = map f (Set_add acc x)"
    by (simp add: Set_add_def)
  moreover have "inj_on f (set (Set_add acc x) \<union> set xs)"
    using Cons.prems by (auto simp: Set_add_def intro: inj_on_subset)
  ultimately show ?case using Cons.IH [of "Set_add acc x"] by simp
qed

lemma new_Set_map: "inj_on f (set xs) \<Longrightarrow> new_Set (map f xs) = map f (new_Set xs)"
  using foldl_Set_add_map [of f "[]" xs] by (simp add: new_Set_def)

lemma map_throwing_if:
  "map_throwing (\<lambda>x. if P x then Inr (g x) else Inl e) xs =
     (if \<forall>x\<in>set xs. P x then Inr (map g xs) else Inl e)"
  by (induction xs) simp_all

subsection \<open>The streak in terms of day numbers\<close>

lemma index0_map: "index0 (map f xs) = map_option f (index0 xs)"
  by (cases xs) (simp_all add: index0_def)

lemma index0_day_key:
  assumes "\<forall>d\<in>set ds. valid_day d" "valid_day c"
  shows "index0 (map day_key ds) = Some (day_key c) \<longleftrightarrow> index0 ds = Some c"
  using assms by (cases ds) (simp_all add: index0_def day_key_inj)

text \<open>The days of the array \<open>dayArray\<close>, in its order.\<close>

definition day_list :: "int list \<Rightarrow> int list" where
  "day_list ts =
     rev (sort_by (\<lambda>a b. default_compare (day_key a) (day_key b))
            (new_Set (map Day (sort_by (\<lambda>a b. b - a) ts))))"

lemma set_day_list: "set (day_list ts) = Day ` set ts"
  by (simp add: day_list_def set_sort_by new_Set_set)

lemma distinct_insert_by: "distinct (insert_by cmp x ys) \<longleftrightarrow> x \<notin> set ys \<and> distinct ys"
  by (induction ys) (auto simp: set_insert_by)

lemma distinct_sort_by: "distinct (sort_by cmp xs) \<longleftrightarrow> distinct xs"
  by (induction xs) (simp_all add: sort_by_Nil sort_by_Cons distinct_insert_by set_sort_by)

lemma distinct_day_list: "distinct (day_list ts)"
  by (simp add: day_list_def distinct_sort_by new_Set_distinct)

lemma calculateStreak_days:
  assumes ne: "ts \<noteq> []"
    and ts: "\<forall>t\<in>set ts. \<bar>t\<bar> \<le> 8640000000000000"
    and now: "\<bar>now\<bar> \<le> 8640000000000000" "\<bar>now - 86400000\<bar> \<le> 8640000000000000"
  shows "calculateStreak tza now ts =
     (case (if index0 (day_list ts) \<noteq> Some (Day now) \<and> index0 (day_list ts) \<noteq> Some (Day now - 1)
            then Inr 0
            else current_loop tza (map day_key (day_list ts))
                   (day_key (if index0 (day_list ts) = Some (Day now) then Day now
                             else Day now - 1)) 0) of
        Inl e \<Rightarrow> Inl e
      | Inr cur \<Rightarrow>
          Inr \<lparr>current = cur,
               longest = max (fst (runs (rev (day_list ts)) 0 1)) (snd (runs (rev (day_list ts)) 0 1)),
               lastActive = index0 (sort_by (\<lambda>a b. b - a) ts),
               isActiveToday = (index0 (day_list ts) = Some (Day now))\<rparr>)"
proof -
  let ?sorted = "sort_by (\<lambda>a b. b - a) ts"
  let ?ds = "day_list ts"
  have valid: "\<forall>d\<in>set ?ds. valid_day d"
    using ts by (auto simp: set_day_list valid_time_day)
  have vnow: "valid_day (Day now)" "valid_day (Day now - 1)"
    using now valid_time_day [of now] valid_time_day [of "now - 86400000"]
      Day_shift [of now] by (simp_all add: msPerDay_def)
  have keys: "map_throwing (\<lambda>t. getDateKey (Some t)) ?sorted =
      Inr (map day_key (map Day ?sorted))"
    using ts by (simp add: getDateKey_Some map_throwing_if set_sort_by)
  have inj: "inj_on day_key (set (map Day ?sorted))"
    using ts by (auto simp: inj_on_def set_sort_by day_key_inj valid_time_day)
  have dayArray: "rev (sort_by default_compare (new_Set (map day_key (map Day ?sorted)))) =
      map day_key ?ds"
    by (simp only: new_Set_map [OF inj] sort_by_map rev_map day_list_def)
  have today: "getDateKey (Some now) = Inr (day_key (Day now))"
    using now by (simp add: getDateKey_Some)
  have yesterday: "getDateKey (Some (now - 86400000)) = Inr (day_key (Day now - 1))"
    using now Day_shift [of now] by (simp add: getDateKey_Some msPerDay_def)
  have i0: "index0 (map day_key ?ds) = Some (day_key (Day now)) \<longleftrightarrow> index0 ?ds = Some (Day now)"
    "index0 (map day_key ?ds) = Some (day_key (Day now - 1)) \<longleftrightarrow> index0 ?ds = Some (Day now - 1)"
    using valid vnow by (simp_all add: index0_day_key)
  have lng: "longest_loop (rev (map day_key ?ds)) 0 1 = runs (rev ?ds) 0 1"
    using valid longest_loop_runs [of "rev ?ds" 0 1] by (simp add: rev_map)
  show ?thesis
    unfolding calculateStreak_def Let_def keys sum.case dayArray today yesterday i0 lng
    using ne by (simp add: split_beta if_distrib [of day_key] split: sum.split)
qed

lemma calculateStreak_invalid:
  assumes "ts \<noteq> []"
    and "\<not> ((\<forall>t\<in>set ts. \<bar>t\<bar> \<le> 8640000000000000) \<and> \<bar>now\<bar> \<le> 8640000000000000 \<and>
            \<bar>now - 86400000\<bar> \<le> 8640000000000000)"
  shows "calculateStreak tza now ts = Inl RangeError"
  using assms
  by (auto simp: calculateStreak_def getDateKey_Some map_throwing_if set_sort_by Let_def
      split: sum.split)

lemma calculateStreak_Nil:
  "calculateStreak tza now [] =
     Inr \<lparr>current = 0, longest = 0, lastActive = None, isActiveToday = False\<rparr>"
  by (simp add: calculateStreak_def)

lemma streak_result_ordered:
  assumes "calculateStreak (constant_offset off) now ts = Inr r"
  shows "0 \<le> current r \<and> current r \<le> longest r"
proof (cases "ts = []")
  case True
  with assms show ?thesis by (auto simp: calculateStreak_Nil)
next
  case False
  let ?ds = "day_list ts"
  let ?c = "if index0 ?ds = Some (Day now) then Day now else Day now - 1"
  have ok: "\<forall>t\<in>set ts. \<bar>t\<bar> \<le> 8640000000000000" "\<bar>now\<bar> \<le> 8640000000000000"
    "\<bar>now - 86400000\<bar> \<le> 8640000000000000"
    using calculateStreak_invalid [OF False, of now "constant_offset off"] assms by auto
  note eq = calculateStreak_days [OF False ok, of "constant_offset off"]
  have valid: "\<forall>d\<in>set ?ds. valid_day d"
    using ok(1) by (auto simp: set_day_list valid_time_day)
  have vc: "valid_day ?c"
    using ok(2,3) valid_time_day [of now] valid_time_day [of "now - 86400000"]
      Day_shift [of now] by (simp add: msPerDay_def)
  have tmp: "1 \<le> snd (runs (rev ?ds) 0 1)"
    by (rule runs_tmp_pos) simp
  show ?thesis
  proof (cases "index0 ?ds \<noteq> Some (Day now) \<and> index0 ?ds \<noteq> Some (Day now - 1)")
    case True
    with eq assms have "current r = 0"
      "longest r = max (fst (runs (rev ?ds) 0 1)) (snd (runs (rev ?ds) 0 1))"
      by auto
    with tmp show ?thesis by simp
  next
    case False
    with eq assms obtain cur where
      loop: "current_loop (constant_offset off) (map day_key ?ds) (day_key ?c) 0 = Inr cur"
      and r: "current r = cur"
        "longest r = max (fst (runs (rev ?ds) 0 1)) (snd (runs (rev ?ds) 0 1))"
      by (auto split: sum.splits)
    have "cur = 0 + int (walk ?ds ?c)"
      using valid vc loop by (rule current_loop_Inr)
    moreover have "int (walk ?ds ?c) \<le> snd (runs (rev ?ds) 0 1)"
      by (rule walk_le_runs) simp
    ultimately show ?thesis using r by simp
  qed
qed

lemma calculateStreak_returns:
  assumes ts: "\<forall>t\<in>set ts. - 8639999913600000 \<le> t \<and> t \<le> 8640000000000000"
    and now: "- 8639999913600000 \<le> now" "now \<le> 8640000000000000"
  shows "\<exists>r. calculateStreak (constant_offset off) now ts = Inr r"
proof (cases "ts = []")
  case True
  then show ?thesis by (simp add: calculateStreak_Nil)
next
  case False
  let ?ds = "day_list ts"
  let ?c = "if index0 ?ds = Some (Day now) then Day now else Day now - 1"
  have ok: "\<forall>t\<in>set ts. \<bar>t\<bar> \<le> 8640000000000000" "\<bar>now\<bar> \<le> 8640000000000000"
    "\<bar>now - 86400000\<bar> \<le> 8640000000000000"
    using ts now by auto
  have lo: "- 100000000 < Day t" if "- 8639999913600000 \<le> t" for t
    using that unfolding Day_def msPerDay_def by linarith
  have valid: "\<forall>d\<in>set ?ds. valid_day d \<and> - 100000000 < d"
    using ts ok(1) lo by (auto simp: set_day_list valid_time_day)
  have vc: "valid_day ?c"
    using ok(2,3) valid_time_day [of now] valid_time_day [of "now - 86400000"]
      Day_shift [of now] by (simp add: msPerDay_def)
  show ?thesis
    unfolding calculateStreak_days [OF False ok]
    by (simp add: current_loop_walk [OF valid vc])
qed

text \<open>
  On a host whose time zone keeps a constant offset, a result of \<open>calculateStreak\<close> has
  \<open>longest \<ge> current \<ge> 0\<close> whatever the timestamps and the current time are, and there is
  a result whenever they are time values, the first day of the range of time values
  excepted.
\<close>

lemma constant_offset_longest_current:
  "(\<forall>r. calculateStreak (constant_offset off) now ts = Inr r \<longrightarrow>
      0 \<le> current r \<and> current r \<le> longest r) \<and>
   ((\<forall>t\<in>set ts. - 8639999913600000 \<le> t \<and> t \<le> 8640000000000000) \<and>
    - 8639999913600000 \<le> now \<and> now \<le> 8640000000000000 \<longrightarrow>
    (\<exists>r. calculateStreak (constant_offset off) now ts = Inr r))"
  using streak_result_ordered [of off now ts]
    calculateStreak_returns [of ts now off]
  by blast

text \<open>
  C3, as stated: every result of \<open>calculateStreak\<close> has \<open>longest \<ge> current \<ge> 0\<close>. It fails
  on a host with daylight saving. In New York at 2024-11-04T12:00Z, with activity on
  2024-11-04 and on 2024-11-02 and none on 2024-11-03, the result has \<open>current = 2\<close> and
  \<open>longest = 1\<close>: midnight UTC of 2024-11-04 is 19:00 local time on the 3rd, and
  \<open>setDate(getDate() - 1)\<close> gives 19:00 local time on the 2nd, which lies before the
  change of offset and is 23:00 UTC of the 2nd, so the step from the key \<open>2024-11-04\<close>
  lands on the key \<open>2024-11-02\<close> and the loop counts both days as one streak, while
  the scan for \<open>longest\<close> sees two days between them.
\<close>

theorem calculateStreak_current_exceeds_longest:
  "calculateStreak new_york_2024 1730721600000 [1730721600000, 1730548800000] =
     Inr \<lparr>current = 2, longest = 1, lastActive = Some 1730721600000, isActiveToday = True\<rparr> \<and>
   getDateKey (Some 1730721600000) = Inr ''2024-11-04'' \<and>
   getDateKey (Some 1730548800000) = Inr ''2024-11-02'' \<and>
   previous_day new_york_2024 ''2024-11-04'' = Inr ''2024-11-02'' \<and>
   previous_day (constant_offset (- 18000000)) ''2024-11-04'' = Inr ''2024-11-03''"
  by code_simp

subsection \<open>A second timestamp on an active day\<close>

lemma day_list_same_days:
  assumes "\<forall>t\<in>set ts. \<bar>t\<bar> \<le> 8640000000000000"
    and "\<forall>t\<in>set ts'. \<bar>t\<bar> \<le> 8640000000000000"
    and "Day ` set ts = Day ` set ts'"
  shows "day_list ts = day_list ts'"
proof -
  let ?cmp = "\<lambda>a b. default_compare (day_key a) (day_key b)"
  let ?xs = "new_Set (map Day (sort_by (\<lambda>a b. b - a) ts))"
  let ?ys = "new_Set (map Day (sort_by (\<lambda>a b. b - a) ts'))"
  have sets: "set ?xs = Day ` set ts" "set ?ys = Day ` set ts'"
    by (simp_all add: new_Set_set set_sort_by)
  have inj: "inj_on day_key (Day ` set ts \<union> Day ` set ts')"
    using assms(1,2) by (auto simp: inj_on_def day_key_inj valid_time_day)
  have inj1: "inj_on day_key (set ?xs)" "inj_on day_key (set ?ys)"
    using inj sets by (auto intro: inj_on_subset)
  have "sort (map day_key ?xs) = sort (map day_key ?ys)"
  proof (rule sorted_distinct_set_unique)
    show "distinct (sort (map day_key ?xs))" "distinct (sort (map day_key ?ys))"
      using inj1 by (simp_all add: distinct_map new_Set_distinct)
    show "set (sort (map day_key ?xs)) = set (sort (map day_key ?ys))"
      using sets assms(3) by simp
  qed simp_all
  then have "map day_key (sort_by ?cmp ?xs) = map day_key (sort_by ?cmp ?ys)"
    by (simp add: sort_by_map [symmetric] sort_by_default)
  moreover have "inj_on day_key (set (sort_by ?cmp ?xs) \<union> set (sort_by ?cmp ?ys))"
    using inj sets by (simp add: set_sort_by)
  ultimately have "sort_by ?cmp ?xs = sort_by ?cmp ?ys"
    by (simp add: inj_on_map_eq_map)
  then show ?thesis by (simp add: day_list_def)
qed

text \<open>
  C7. When the day key of a timestamp \<open>t\<close> is already the key of a timestamp of the list,
  \<open>calculateStreak\<close> on the list with \<open>t\<close> appended gives the same \<open>current\<close> and \<open>longest\<close>
  as on the list itself (and throws exactly when it throws on the list).
\<close>

theorem calculateStreak_same_day:
  assumes "getDateKey (Some t) = Inr k"
    and "Inr k \<in> (\<lambda>u. getDateKey (Some u)) ` set ts"
  shows "map_sum id (\<lambda>r. (current r, longest r)) (calculateStreak tza now (ts @ [t])) =
         map_sum id (\<lambda>r. (current r, longest r)) (calculateStreak tza now ts)"
proof -
  from assms(1) have t: "\<bar>t\<bar> \<le> 8640000000000000" and k: "k = day_key (Day t)"
    by (auto simp: getDateKey_Some split: if_splits)
  from assms(2) obtain u where u: "u \<in> set ts" "\<bar>u\<bar> \<le> 8640000000000000"
    "day_key (Day u) = day_key (Day t)"
    by (auto simp: getDateKey_Some k split: if_splits)
  then have day: "Day u = Day t"
    using t by (simp add: day_key_inj valid_time_day)
  from u have ne: "ts \<noteq> []" "ts @ [t] \<noteq> []" by auto
  show ?thesis
  proof (cases "(\<forall>t\<in>set ts. \<bar>t\<bar> \<le> 8640000000000000) \<and> \<bar>now\<bar> \<le> 8640000000000000 \<and>
      \<bar>now - 86400000\<bar> \<le> 8640000000000000")
    case True
    then have ok: "\<forall>t\<in>set ts. \<bar>t\<bar> \<le> 8640000000000000"
      "\<forall>x\<in>set (ts @ [t]). \<bar>x\<bar> \<le> 8640000000000000"
      "\<bar>now\<bar> \<le> 8640000000000000" "\<bar>now - 86400000\<bar> \<le> 8640000000000000"
      using t by auto
    have "Day t \<in> Day ` set ts"
      using u(1) day by (metis imageI)
    then have "Day ` set (ts @ [t]) = Day ` set ts"
      by auto
    then have "day_list (ts @ [t]) = day_list ts"
      using ok(1,2) by (intro day_list_same_days) auto
    then show ?thesis
      unfolding calculateStreak_days [OF ne(1) ok(1,3,4)]
        calculateStreak_days [OF ne(2) ok(2,3,4)]
      by (simp split: sum.split)
  next
    case False
    then have "\<not> ((\<forall>x\<in>set (ts @ [t]). \<bar>x\<bar> \<le> 8640000000000000) \<and>
        \<bar>now\<bar> \<le> 8640000000000000 \<and> \<bar>now - 86400000\<bar> \<le> 8640000000000000)"
      by auto
    then show ?thesis
      using False calculateStreak_invalid [OF ne(1), of now tza]
        calculateStreak_invalid [OF ne(2), of now tza]
      by simp
  qed
qed

theorem calculateStreak_same_day_witness:
  "getDateKey (Some 1730505600000) = Inr ''2024-11-02'' \<and>
   Inr ''2024-11-02'' \<in> (\<lambda>u. getDateKey (Some u)) ` set [1730541234567, 1730454834567] \<and>
   map_sum id (\<lambda>r. (current r, longest r))
     (calculateStreak (constant_offset 0) 1730541234567 ([1730541234567, 1730454834567] @ [1730505600000])) =
   Inr (2, 2) \<and>
   map_sum id (\<lambda>r. (current r, longest r))
     (calculateStreak (constant_offset 0) 1730541234567 [1730541234567, 1730454834567]) = Inr (2, 2)"
proof -
  have k: "getDateKey (Some 1730505600000) = Inr ''2024-11-02''"
    by code_simp
  have k': "getDateKey (Some 1730541234567) = Inr ''2024-11-02''"
    by code_simp
  have mem: "Inr ''2024-11-02'' \<in> (\<lambda>u. getDateKey (Some u)) ` set [1730541234567, 1730454834567]"
    using k' by simp
  have run: "map_sum id (\<lambda>r. (current r, longest r))
      (calculateStreak (constant_offset 0) 1730541234567 [1730541234567, 1730454834567]) = Inr (2, 2)"
    by code_simp
  from calculateStreak_same_day [OF k mem, of "constant_offset 0" 1730541234567] run k mem
  show ?thesis by simp
qed

subsection \<open>The order of the keys of four-digit years\<close>

lemma append_less_same_length:
  fixes xs ys :: "'a::linorder list"
  assumes "length xs = length ys"
  shows "xs @ us < ys @ vs \<longleftrightarrow> xs < ys \<or> (xs = ys \<and> us < vs)"
  using assms by (induction xs ys rule: list_induct2) auto

lemma digit_char_less: "0 \<le> u \<Longrightarrow> u < v \<Longrightarrow> v \<le> 9 \<Longrightarrow> digit_char u < digit_char v"
proof -
  assume a: "0 \<le> u" "u < v" "v \<le> 9"
  have "(of_char (digit_char u) :: int) < of_char (digit_char v)"
    using a by (simp add: of_char_digit_char)
  then have "int (of_char (digit_char u)) < int (of_char (digit_char v))"
    by (simp only: of_nat_of_char)
  then show ?thesis by (simp add: less_char_def)
qed

lemma digits_less:
  assumes "0 \<le> a" "a < b" "b < 10 ^ k"
  shows "digits k a < digits k b"
  using assms
proof (induction k arbitrary: a b)
  case 0
  then show ?case by simp
next
  case (Suc k)
  have b10: "b div 10 < 10 ^ k" using Suc.prems by simp
  have a10: "0 \<le> a div 10" using Suc.prems by simp
  consider (hi) "a div 10 < b div 10" | (lo) "a div 10 = b div 10" "a mod 10 < b mod 10"
  proof -
    have "a div 10 \<le> b div 10" using Suc.prems by (simp add: zdiv_mono1)
    moreover have "a mod 10 < b mod 10" if "a div 10 = b div 10"
      using that Suc.prems(2) mult_div_mod_eq [of 10 a] mult_div_mod_eq [of 10 b] by linarith
    ultimately show ?thesis using hi lo by linarith
  qed
  then show ?case
  proof cases
    case hi
    then have "digits k (a div 10) < digits k (b div 10)"
      using Suc.IH [OF a10 _ b10] by simp
    then show ?thesis by (simp add: append_less_same_length length_digits)
  next
    case lo
    have "digit_char (a mod 10) < digit_char (b mod 10)"
      using lo(2) by (intro digit_char_less) simp_all
    with lo(1) show ?thesis by (simp add: append_less_same_length length_digits)
  qed
qed

lemma MonthFromTime_mono:
  assumes "InLeapYear t = InLeapYear t'" "DayWithinYear t \<le> DayWithinYear t'"
  shows "MonthFromTime t \<le> MonthFromTime t'"
  using assms unfolding MonthFromTime_def Let_def by (simp split: if_splits)

lemma DateFromTime_diff:
  assumes "InLeapYear t = InLeapYear t'" "MonthFromTime t = MonthFromTime t'"
  shows "DateFromTime t' - DateFromTime t = DayWithinYear t' - DayWithinYear t"
  using month_date [of t] month_date [of t'] assms by simp

text \<open>The day numbers of the years 0 to 9999, whose keys have a four-digit year.\<close>

definition four_digit_day :: "int \<Rightarrow> bool" where
  "four_digit_day d \<longleftrightarrow> - 719528 \<le> d \<and> d \<le> 2932896"

lemma four_digit_valid: "four_digit_day d \<Longrightarrow> valid_day d"
  by (simp add: four_digit_day_def valid_day_def)

lemma four_digit_year:
  assumes "four_digit_day d"
  shows "0 \<le> YearFromDay d" "YearFromDay d \<le> 9999"
proof -
  have lo: "DayFromYear 0 = - 719528" and hi: "DayFromYear 10000 = 2932897"
    by (simp_all add: DayFromYear_def)
  show "0 \<le> YearFromDay d"
  proof (rule ccontr)
    assume "\<not> 0 \<le> YearFromDay d"
    then have "DayFromYear (YearFromDay d + 1) \<le> DayFromYear 0"
      by (intro DayFromYear_mono) simp
    with YearFromDay_bounds(2) [of d] lo assms show False by (simp add: four_digit_day_def)
  qed
  show "YearFromDay d \<le> 9999"
  proof (rule ccontr)
    assume "\<not> YearFromDay d \<le> 9999"
    then have "DayFromYear 10000 \<le> DayFromYear (YearFromDay d)"
      by (intro DayFromYear_mono) simp
    with YearFromDay_bounds(1) [of d] hi assms show False by (simp add: four_digit_day_def)
  qed
qed

lemma day_key_four_digits:
  assumes "four_digit_day d"
  shows "day_key d =
     digits 4 (YearFromDay d) @ ''-'' @ digits 2 (MonthFromTime (d * msPerDay) + 1) @ ''-'' @
     digits 2 (DateFromTime (d * msPerDay))"
  using four_digit_year [OF assms]
  by (simp add: day_key_def date_string_def year_string_def YearFromTime_def)

lemma day_key_less:
  assumes a: "four_digit_day a" and b: "four_digit_day b" and ab: "a < b"
  shows "day_key a < day_key b"
proof -
  let ?ta = "a * msPerDay" and ?tb = "b * msPerDay"
  have ya: "0 \<le> YearFromDay a" and yb: "YearFromDay b < 10 ^ 4"
    using four_digit_year [OF a] four_digit_year [OF b] by simp_all
  have ma: "0 \<le> MonthFromTime ?ta + 1" and mb: "MonthFromTime ?tb + 1 < 10 ^ 2"
    using MonthFromTime_range [of ?ta] MonthFromTime_range [of ?tb] by simp_all
  have da: "0 \<le> DateFromTime ?ta" and db: "DateFromTime ?tb < 10 ^ 2"
    using DateFromTime_range [of ?ta] DateFromTime_range [of ?tb] by simp_all
  have yle: "YearFromDay a \<le> YearFromDay b"
    using ab by (intro YearFromDay_mono) simp
  consider (year) "YearFromDay a < YearFromDay b"
    | (month) "YearFromDay a = YearFromDay b" "MonthFromTime ?ta < MonthFromTime ?tb"
    | (date) "YearFromDay a = YearFromDay b" "MonthFromTime ?ta = MonthFromTime ?tb"
        "DateFromTime ?ta < DateFromTime ?tb"
  proof (cases "YearFromDay a = YearFromDay b")
    case False
    with yle year show ?thesis by simp
  next
    case True
    then have leap: "InLeapYear ?ta = InLeapYear ?tb"
      by (simp add: InLeapYear_def YearFromTime_def)
    have dwy: "DayWithinYear ?ta < DayWithinYear ?tb"
      using True ab by (simp add: DayWithinYear_def YearFromTime_def)
    then have "MonthFromTime ?ta \<le> MonthFromTime ?tb"
      using leap by (intro MonthFromTime_mono) simp_all
    moreover have "DateFromTime ?ta < DateFromTime ?tb"
      if "MonthFromTime ?ta = MonthFromTime ?tb"
      using DateFromTime_diff [OF leap that] dwy by simp
    ultimately show ?thesis using True month date by linarith
  qed
  then show ?thesis
  proof cases
    case year
    then have "digits 4 (YearFromDay a) < digits 4 (YearFromDay b)"
      using ya yb by (intro digits_less) simp_all
    then show ?thesis
      by (simp only: day_key_four_digits [OF a] day_key_four_digits [OF b]
          append_less_same_length length_digits simp_thms)
  next
    case month
    then have "digits 2 (MonthFromTime ?ta + 1) < digits 2 (MonthFromTime ?tb + 1)"
      using ma mb by (intro digits_less) simp_all
    then show ?thesis
      using month(1)
      by (simp add: day_key_four_digits [OF a] day_key_four_digits [OF b]
          append_less_same_length length_digits)
  next
    case date
    then have "digits 2 (DateFromTime ?ta) < digits 2 (DateFromTime ?tb)"
      using da db by (intro digits_less) simp_all
    then show ?thesis
      using date(1,2)
      by (simp add: day_key_four_digits [OF a] day_key_four_digits [OF b]
          append_less_same_length length_digits)
  qed
qed

lemma day_key_less_iff:
  assumes "four_digit_day a" "four_digit_day b"
  shows "day_key a < day_key b \<longleftrightarrow> a < b"
proof
  assume lt: "day_key a < day_key b"
  show "a < b"
  proof (rule ccontr)
    assume "\<not> a < b"
    then consider "b < a" | "a = b" by linarith
    then show False
    proof cases
      case 1
      then have "day_key b < day_key a" using assms by (intro day_key_less)
      with lt show False by simp
    next
      case 2
      with lt show False by simp
    qed
  qed
qed (rule day_key_less [OF assms])

lemma insert_by_key_insort:
  assumes "four_digit_day x" "\<forall>y\<in>set ys. four_digit_day y"
  shows "insert_by (\<lambda>a b. default_compare (day_key a) (day_key b)) x ys = insort x ys"
  using assms
proof (induction ys)
  case Nil
  show ?case by simp
next
  case (Cons y ys)
  have "default_compare (day_key x) (day_key y) \<le> 0 \<longleftrightarrow> x \<le> y"
    using Cons.prems day_key_less_iff [of x y] day_key_less_iff [of y x]
    by (auto simp: default_compare_def)
  with Cons show ?case by simp
qed

lemma sort_by_key_sort:
  "\<forall>x\<in>set xs. four_digit_day x \<Longrightarrow>
   sort_by (\<lambda>a b. default_compare (day_key a) (day_key b)) xs = sort xs"
  by (induction xs) (simp_all add: sort_by_Nil sort_by_Cons insert_by_key_insort)

lemma day_list_descending:
  assumes "\<forall>t\<in>set ts. four_digit_day (Day t)"
  shows "sorted_wrt (\<lambda>a b. b < a) (day_list ts)"
proof -
  let ?xs = "new_Set (map Day (sort_by (\<lambda>a b. b - a) ts))"
  have "\<forall>x\<in>set ?xs. four_digit_day x"
    using assms by (simp add: new_Set_set set_sort_by)
  then have "day_list ts = rev (sort ?xs)"
    by (simp add: day_list_def sort_by_key_sort)
  moreover have "sorted_wrt (<) (sort ?xs)"
    by (simp add: strict_sorted_iff new_Set_distinct)
  ultimately show ?thesis by (simp add: sorted_wrt_rev)
qed

lemma index0_descending:
  assumes "sorted_wrt (\<lambda>a b. b < a) ds" "ds \<noteq> []"
  shows "index0 ds = Some (Max (set ds))"
proof (cases ds)
  case Nil
  with assms show ?thesis by simp
next
  case (Cons d rest)
  with assms(1) have "\<forall>x\<in>set rest. x < d" by simp
  then have "Max (set (d # rest)) = d"
    by (intro Max_eqI) auto
  with Cons show ?thesis by (simp add: index0_def)
qed

lemma walk_members: "i < walk ds c \<Longrightarrow> c - int i \<in> set ds"
proof (induction ds arbitrary: c i)
  case Nil
  then show ?case by simp
next
  case (Cons d ds)
  then have dc: "d = c" by (simp split: if_splits)
  show ?case
  proof (cases i)
    case 0
    with dc show ?thesis by simp
  next
    case (Suc j)
    with Cons.prems dc have "j < walk ds (c - 1)" by simp
    then have "c - 1 - int j \<in> set ds" by (rule Cons.IH)
    with Suc show ?thesis by (simp add: algebra_simps)
  qed
qed

lemma walk_stops:
  assumes "sorted_wrt (\<lambda>a b. b < a) ds" "\<forall>d\<in>set ds. d \<le> c"
  shows "c - int (walk ds c) \<notin> set ds"
  using assms
proof (induction ds arbitrary: c)
  case Nil
  show ?case by simp
next
  case (Cons d ds)
  show ?case
  proof (cases "d = c")
    case True
    have "\<forall>x\<in>set ds. x \<le> c - 1" using Cons.prems(1) True by auto
    moreover have "sorted_wrt (\<lambda>a b. b < a) ds" using Cons.prems(1) by simp
    ultimately have "c - 1 - int (walk ds (c - 1)) \<notin> set ds" by (rule Cons.IH [rotated])
    with True show ?thesis by (simp add: algebra_simps)
  next
    case False
    with Cons.prems have "d < c" "\<forall>x\<in>set ds. x < d" by auto
    with False show ?thesis by auto
  qed
qed

lemma four_digit_time:
  "- 62167219200000 \<le> t \<Longrightarrow> t \<le> 253402300799999 \<Longrightarrow> four_digit_day (Day t)"
  unfolding four_digit_day_def Day_def msPerDay_def by linarith

text \<open>
  C4, as stated: \<open>current\<close> is 0 when the most recent active day is neither today nor
  yesterday, and otherwise the number of consecutive active days walking back one day at a
  time from today or yesterday. It fails in two ways.
  In New York at 2024-11-04T12:00Z, with activity on each of 2024-11-04, 2024-11-03 and
  2024-11-02 and none on 2024-11-01, the walk counts three days, yet \<open>current\<close> is 1: the
  step back from the key \<open>2024-11-04\<close> is made with \<open>setDate\<close> in local time across the
  change of offset and lands on the key \<open>2024-11-02\<close>, which the next day of the array,
  \<open>2024-11-03\<close>, does not equal.
  On any host, with a timestamp of today and one in the year 10000, the most recent active
  day is neither today nor yesterday, yet \<open>current\<close> is 1: \<open>dayArray\<close> is ordered by the
  default string sort, and the key \<open>+010000-01-01\<close> sorts before \<open>2024-11-02\<close>.
\<close>

theorem calculateStreak_current_miscounted:
  "calculateStreak new_york_2024 1730721600000 [1730721600000, 1730635200000, 1730548800000] =
     Inr \<lparr>current = 1, longest = 3, lastActive = Some 1730721600000, isActiveToday = True\<rparr> \<and>
   Day 1730721600000 \<in> Day ` set [1730721600000, 1730635200000, 1730548800000] \<and>
   Day 1730721600000 - 1 \<in> Day ` set [1730721600000, 1730635200000, 1730548800000] \<and>
   Day 1730721600000 - 2 \<in> Day ` set [1730721600000, 1730635200000, 1730548800000] \<and>
   Day 1730721600000 - 3 \<notin> Day ` set [1730721600000, 1730635200000, 1730548800000] \<and>
   calculateStreak (constant_offset 0) 1730541234567 [1730541234567, 253402300800000] =
     Inr \<lparr>current = 1, longest = 1, lastActive = Some 253402300800000,
          isActiveToday = True\<rparr> \<and>
   Max (Day ` set [1730541234567, 253402300800000]) \<noteq> Day 1730541234567 \<and>
   Max (Day ` set [1730541234567, 253402300800000]) \<noteq> Day 1730541234567 - 1"
proof -
  have "calculateStreak new_york_2024 1730721600000
      [1730721600000, 1730635200000, 1730548800000] =
     Inr \<lparr>current = 1, longest = 3, lastActive = Some 1730721600000, isActiveToday = True\<rparr>"
    by code_simp
  moreover have "calculateStreak (constant_offset 0) 1730541234567
      [1730541234567, 253402300800000] =
     Inr \<lparr>current = 1, longest = 1, lastActive = Some 253402300800000,
          isActiveToday = True\<rparr>"
    by code_simp
  moreover have "Day 1730721600000 = 20031" "Day 1730635200000 = 20030"
    "Day 1730548800000 = 20029" "Day 1730541234567 = 20029" "Day 253402300800000 = 2932897"
    by (simp_all add: Day_def msPerDay_def)
  ultimately show ?thesis by simp
qed

text \<open>
  On a host whose time zone keeps a constant offset, and for timestamps in the years 0 to
  9999 (UTC), \<open>current\<close> counts the walk, with days read as UTC calendar days: for a
  non-empty list and a current time that is a time value (the first day of the range
  excepted), \<open>calculateStreak\<close> returns a result; its \<open>current\<close> is 0 when the most recent
  active day is neither today nor yesterday, and otherwise the number \<open>n\<close> of active days
  met walking back one day at a time from today (if active today) or else yesterday, up to
  the first inactive day.
\<close>

lemma constant_offset_current:
  assumes ne: "ts \<noteq> []"
    and ts: "\<forall>t\<in>set ts. - 62167219200000 \<le> t \<and> t \<le> 253402300799999"
    and now: "- 8639999913600000 \<le> now" "now \<le> 8640000000000000"
  shows "\<exists>r. calculateStreak (constant_offset off) now ts = Inr r \<and>
     (Max (Day ` set ts) \<noteq> Day now \<and> Max (Day ` set ts) \<noteq> Day now - 1 \<longrightarrow> current r = 0) \<and>
     (Max (Day ` set ts) = Day now \<or> Max (Day ` set ts) = Day now - 1 \<longrightarrow>
        (\<exists>n. current r = int n \<and>
           (\<forall>i<n. (if Day now \<in> Day ` set ts then Day now else Day now - 1) - int i
                     \<in> Day ` set ts) \<and>
           (if Day now \<in> Day ` set ts then Day now else Day now - 1) - int n
             \<notin> Day ` set ts))"
proof -
  let ?ds = "day_list ts"
  let ?D = "Day ` set ts"
  let ?c = "if index0 ?ds = Some (Day now) then Day now else Day now - 1"
  have four: "\<forall>t\<in>set ts. four_digit_day (Day t)"
    using ts by (simp add: four_digit_time)
  have ok: "\<forall>t\<in>set ts. \<bar>t\<bar> \<le> 8640000000000000" "\<bar>now\<bar> \<le> 8640000000000000"
    "\<bar>now - 86400000\<bar> \<le> 8640000000000000"
    using ts now by auto
  have valid: "\<forall>d\<in>set ?ds. valid_day d \<and> - 100000000 < d"
    using four by (auto simp: set_day_list four_digit_day_def valid_day_def)
  have vc: "valid_day ?c"
    using ok(2,3) valid_time_day [of now] valid_time_day [of "now - 86400000"]
      Day_shift [of now] by (simp add: msPerDay_def)
  have desc: "sorted_wrt (\<lambda>a b. b < a) ?ds"
    using four by (rule day_list_descending)
  have "?ds \<noteq> []"
    using ne set_day_list [of ts] by auto
  with desc have first: "index0 ?ds = Some (Max ?D)"
    using index0_descending [of ?ds] by (simp add: set_day_list)
  have top: "\<forall>d\<in>set ?ds. d \<le> Max ?D"
    by (simp add: set_day_list)
  note eq = calculateStreak_days [OF ne ok, of "constant_offset off"]
  show ?thesis
  proof (cases "Max ?D = Day now \<or> Max ?D = Day now - 1")
    case False
    then show ?thesis unfolding eq first by simp
  next
    case True
    have fin: "finite ?D" by simp
    have mem: "Max ?D \<in> ?D" using ne by (intro Max_in) auto
    have "Max ?D = Day now" if "Day now \<in> ?D"
      using Max_ge [OF fin that] True by linarith
    with mem True have start: "(if Day now \<in> ?D then Day now else Day now - 1) = Max ?D"
      by auto
    have c: "?c = Max ?D" using True first by auto
    let ?n = "walk ?ds (Max ?D)"
    have run: "current_loop (constant_offset off) (map day_key ?ds) (day_key ?c) 0 = Inr (0 + int ?n)"
      using current_loop_walk [OF valid vc, of off 0] c by simp
    have "\<forall>i<?n. Max ?D - int i \<in> ?D"
      using walk_members [of _ ?ds "Max ?D"] by (simp add: set_day_list)
    moreover have "Max ?D - int ?n \<notin> ?D"
      using walk_stops [OF desc top] by (simp add: set_day_list)
    ultimately show ?thesis
      unfolding eq start using True first run by auto
  qed
qed

end
